theory Spec2Isabelle
  imports Complex_Main "HOL-Library.Word"
begin

section \<open>QRIS router: stores, transaction queue, device heartbeat\<close>

text \<open>
  The worker keeps three tables in its database: \<open>stores\<close>, \<open>transactions\<close> and
  \<open>device_heartbeat\<close>. Every handler is embedded as a function from the request and
  the state before the call to the response and the state after it. One storage
  statement (one \<open>await env.DB.prepare(...)\<close>) is one atomic step on the tables.
  Strings are byte strings; \<open>trim\<close> removes the ASCII white space of JavaScript's
  \<open>String.prototype.trim\<close>.
\<close>

subsection \<open>Strings and header helpers\<close>

definition is_space :: "char \<Rightarrow> bool" where
  "is_space c = (c \<in> set [CHR 0x09, CHR 0x0A, CHR 0x0B, CHR 0x0C, CHR 0x0D, CHR 0x20])"

definition trim :: "string \<Rightarrow> string" where
  "trim s = rev (dropWhile is_space (rev (dropWhile is_space s)))"

text \<open>\<open>a || ""\<close> on a header or field that may be absent: the empty string is falsy.\<close>

definition or_empty :: "string option \<Rightarrow> string" where
  "or_empty v = (case v of None \<Rightarrow> [] | Some s \<Rightarrow> s)"

text \<open>\<open>s || null\<close> on a string.\<close>

definition or_null :: "string \<Rightarrow> string option" where
  "or_null s = (if s = [] then None else Some s)"

subsection \<open>Data model\<close>

record store =
  store_id :: string
  name :: string
  device_token :: string
  enabled :: int

text \<open>
  A row of \<open>transactions\<close>. The column \<open>id\<close> is the field \<open>row_id\<close>, the column
  \<open>store_id\<close> is the field \<open>tx_store_id\<close>; \<open>played\<close> is the integer the table holds.
\<close>

record transaction =
  row_id :: nat
  transaction_id :: string
  tx_store_id :: string
  amount :: int
  played :: int

text \<open>
  A cell of \<open>device_heartbeat\<close>. \<open>STime t\<close> stands for the text
  \<open>YYYY-MM-DD HH:MM:SS\<close> of the instant \<open>t\<close> seconds after the epoch, the format of
  \<open>CURRENT_TIMESTAMP\<close> and \<open>datetime(...)\<close>, on which SQLite's comparison of the texts
  is the comparison of the instants. A column that is absent from a row is NULL.
\<close>

datatype sqlval = SText string | STime int

type_synonym hb_row = "string \<rightharpoonup> sqlval"

record state =
  stores :: "store list"
  transactions :: "transaction list"
  hb_columns :: "string list"
  device_heartbeat :: "hb_row list"
  heartbeatCols :: "string set option"
  heartbeatChecked :: bool
  console :: "string list"

subsection \<open>Schema adapter\<close>

fun getHeartbeatJoinExpr :: "string set option \<Rightarrow> string option" where
  "getHeartbeatJoinExpr None = None"
| "getHeartbeatJoinExpr (Some cols) =
     (if cols = {} then None
      else if ''device_token'' \<in> cols then Some ''s.device_token = d.device_token''
      else if ''device_id'' \<in> cols then Some ''s.device_token = d.device_id''
      else if ''token'' \<in> cols then Some ''s.device_token = d.token''
      else if ''store_id'' \<in> cols then Some ''s.store_id = d.store_id''
      else None)"

fun pickHeartbeatKey :: "string set option \<Rightarrow> string option" where
  "pickHeartbeatKey None = None"
| "pickHeartbeatKey (Some cols) =
     (if cols = {} then None
      else if ''device_id'' \<in> cols then Some ''device_id''
      else if ''device_token'' \<in> cols then Some ''device_token''
      else if ''token'' \<in> cols then Some ''token''
      else if ''store_id'' \<in> cols then Some ''store_id''
      else None)"

subsection \<open>Responses\<close>

datatype body =
    Text string
  | JsonAvailable string int string
  | JsonNotAvailable
  | JsonCreated string
  | JsonStore string string string
  | JsonEnabled string int
  | JsonDeleted string
  | JsonToken string string
  | JsonCleared string nat
  | JsonHealth
  | JsonRows
  | Empty

record response =
  status :: nat
  body :: body

text \<open>
  \<open>json(data)\<close> and \<open>text(msg, status)\<close> of the source; \<open>JsonAvailable t a s\<close> is
  \<open>{available: true, transaction_id: t, amount: a, store_id: s}\<close> and
  \<open>JsonNotAvailable\<close> is \<open>{available: false}\<close>. \<open>JsonRows\<close> is the answer of a
  listing route (\<open>{ok: true, ...: rows}\<close>); the rows it lists are not modelled.
\<close>

definition json :: "body \<Rightarrow> response" where
  "json data = \<lparr>status = 200, body = data\<rparr>"

definition text_response :: "string \<Rightarrow> nat \<Rightarrow> response" where
  "text_response msg st = \<lparr>status = st, body = Text msg\<rparr>"

subsection \<open>The transaction queue and the claim loop\<close>

text \<open>
  \<open>SELECT id, transaction_id, amount FROM transactions WHERE played=0 AND store_id=?
  ORDER BY id ASC LIMIT 1\<close>.
\<close>

definition pending :: "string \<Rightarrow> transaction list \<Rightarrow> transaction list" where
  "pending sid txs = filter (\<lambda>r. played r = 0 \<and> tx_store_id r = sid) txs"

definition select_next :: "string \<Rightarrow> transaction list \<Rightarrow> transaction option" where
  "select_next sid txs =
     (case sort_key row_id (pending sid txs) of [] \<Rightarrow> None | r # _ \<Rightarrow> Some r)"

text \<open>
  \<open>UPDATE transactions SET played=1 WHERE id=? AND played=0\<close>, with the number of rows
  it changed (\<open>meta.changes\<close>).
\<close>

definition update_played :: "nat \<Rightarrow> transaction list \<Rightarrow> transaction list \<times> nat" where
  "update_played i txs =
     (map (\<lambda>r. if row_id r = i \<and> played r = 0 then r\<lparr>played := 1\<rparr> else r) txs,
      length (filter (\<lambda>r. row_id r = i \<and> played r = 0) txs))"

text \<open>The loop \<open>for (let i = 0; i < 3; i++)\<close> of the poll handler, run without interruption.\<close>

function claim_loop :: "nat \<Rightarrow> string \<Rightarrow> transaction list \<Rightarrow> response \<times> transaction list" where
  "claim_loop i sid txs =
     (if i < 3 then
        (case select_next sid txs of
           None \<Rightarrow> (json JsonNotAvailable, txs)
         | Some row \<Rightarrow>
             (if snd (update_played (row_id row) txs) = 1
              then (json (JsonAvailable (transaction_id row) (amount row) sid),
                    fst (update_played (row_id row) txs))
              else claim_loop (i + 1) sid (fst (update_played (row_id row) txs))))
      else (json JsonNotAvailable, txs))"
  by pat_completeness auto
termination
  by (relation "measure (\<lambda>(i, sid, txs). 3 - i)") auto

text \<open>
  The same loop as a machine that stops at every \<open>await\<close>: a call is about to run the
  SELECT of attempt \<open>i\<close>, or holds the row it read and is about to run the UPDATE, or has
  returned. \<open>p_changes\<close> records the \<open>changes\<close> each UPDATE of the call reported, latest
  first. Other calls may change the table between two steps of one call.
\<close>

datatype pc = AtSelect nat | AtUpdate nat transaction | Returned response

record poller =
  p_store :: string
  p_pc :: pc
  p_changes :: "nat list"

definition start_poll :: "string \<Rightarrow> poller" where
  "start_poll sid = \<lparr>p_store = sid, p_pc = AtSelect 0, p_changes = []\<rparr>"

definition poll_step :: "poller \<Rightarrow> transaction list \<Rightarrow> poller \<times> transaction list" where
  "poll_step p txs =
     (case p_pc p of
        AtSelect i \<Rightarrow>
          (if i < 3 then
             (case select_next (p_store p) txs of
                None \<Rightarrow> (p\<lparr>p_pc := Returned (json JsonNotAvailable)\<rparr>, txs)
              | Some row \<Rightarrow> (p\<lparr>p_pc := AtUpdate i row\<rparr>, txs))
           else (p\<lparr>p_pc := Returned (json JsonNotAvailable)\<rparr>, txs))
      | AtUpdate i row \<Rightarrow>
          (if snd (update_played (row_id row) txs) = 1
           then (p\<lparr>p_pc := Returned (json (JsonAvailable (transaction_id row) (amount row) (p_store p))),
                   p_changes := snd (update_played (row_id row) txs) # p_changes p\<rparr>,
                 fst (update_played (row_id row) txs))
           else (p\<lparr>p_pc := AtSelect (i + 1),
                   p_changes := snd (update_played (row_id row) txs) # p_changes p\<rparr>,
                 fst (update_played (row_id row) txs)))
      | Returned r \<Rightarrow> (p, txs))"

text \<open>
  One call under interference: before each of its steps the rest of the system changes
  the table in any way (\<open>e\<close>).
\<close>

fun poll_run :: "(transaction list \<Rightarrow> transaction list) list \<Rightarrow> poller \<Rightarrow> transaction list
    \<Rightarrow> poller \<times> transaction list" where
  "poll_run [] p txs = (p, txs)"
| "poll_run (e # es) p txs = poll_run es (fst (poll_step p (e txs))) (snd (poll_step p (e txs)))"

text \<open>
  Several calls at once: the schedule names which call runs its next step.
\<close>

definition sys_step :: "nat \<Rightarrow> transaction list \<times> poller list \<Rightarrow> transaction list \<times> poller list" where
  "sys_step k sys =
     (if k < length (snd sys)
      then (snd (poll_step (snd sys ! k) (fst sys)),
            (snd sys)[k := fst (poll_step (snd sys ! k) (fst sys))])
      else sys)"

definition run_schedule :: "nat list \<Rightarrow> transaction list \<times> poller list
    \<Rightarrow> transaction list \<times> poller list" where
  "run_schedule sched sys = fold sys_step sched sys"

text \<open>The transaction a call has returned as newly available, if any.\<close>

definition claimed :: "poller \<Rightarrow> string option" where
  "claimed p =
     (case p_pc p of
        Returned r \<Rightarrow> (case body r of JsonAvailable t a s \<Rightarrow> Some t | _ \<Rightarrow> None)
      | _ \<Rightarrow> None)"

subsection \<open>Requests and the environment\<close>

text \<open>A JavaScript number: \<open>Number.isFinite\<close> holds of \<open>Finite q\<close> only.\<close>

datatype number = NaN | PosInfinity | NegInfinity | Finite rat

text \<open>
  The parsed JSON body. A text field is \<open>None\<close> when the body does not have it;
  \<open>b_amount\<close> is \<open>Number(body.amount)\<close>. Bodies whose text fields hold numbers or
  objects are outside the model.
\<close>

record payload =
  b_store_id :: "string option"
  b_name :: "string option"
  b_device_token :: "string option"
  b_amount :: number

text \<open>
  \<open>headers\<close> is keyed by the lower-case header name (\<open>Headers.get\<close> ignores case);
  \<open>json_body\<close> is \<open>None\<close> when \<open>request.json()\<close> throws.
\<close>

record request =
  req_method :: string
  pathname :: string
  headers :: "string \<rightharpoonup> string"
  searchParams :: "string \<rightharpoonup> string"
  json_body :: "payload option"

text \<open>
  The bindings of the worker and what the platform decides during one call: the clock
  (\<open>Date.now()\<close> in milliseconds, the instant of SQLite's \<open>'now'\<close> and
  \<open>CURRENT_TIMESTAMP\<close> in seconds), the bytes \<open>crypto.getRandomValues\<close> writes, and
  whether the two heartbeat statements raise. The other statements are taken to
  succeed: a call in which one of them raises ends in the 500 answer of the outer
  \<open>catch\<close> and is not described here.
\<close>

record env =
  ADMIN_KEY :: "string option"
  API_KEY :: "string option"
  date_now :: nat
  sql_now :: int
  random_byte :: "nat \<Rightarrow> 8 word"
  pragma_raises :: bool
  heartbeat_raises :: bool

text \<open>\<open>request.headers.get(h) || d\<close>.\<close>

definition header_or :: "request \<Rightarrow> string \<Rightarrow> string \<Rightarrow> string" where
  "header_or request h d =
     (if or_empty (headers request h) \<noteq> [] then or_empty (headers request h) else d)"

definition getApiKey :: "request \<Rightarrow> string option" where
  "getApiKey req =
     or_null (trim (header_or req ''x-api-key'' (or_empty (headers req ''authorization''))))"

definition getAdminKey :: "request \<Rightarrow> string option" where
  "getAdminKey req = or_null (trim (or_empty (headers req ''x-admin-key'')))"

definition getDeviceToken :: "request \<Rightarrow> string option" where
  "getDeviceToken req = or_null (trim (or_empty (headers req ''x-device-token'')))"

definition requireAdmin :: "request \<Rightarrow> env \<Rightarrow> response option" where
  "requireAdmin request env =
     (let adminKey = getAdminKey request; envAdmin = trim (or_empty (ADMIN_KEY env)) in
      if adminKey = None \<or> envAdmin = [] \<or> adminKey \<noteq> Some envAdmin
      then Some (text_response ''Unauthorized'' 401) else None)"

definition requireApi :: "request \<Rightarrow> env \<Rightarrow> response option" where
  "requireApi request env =
     (let apiKey = getApiKey request; envKey = trim (or_empty (API_KEY env)) in
      if apiKey = None \<or> envKey = [] \<or> apiKey \<noteq> Some envKey
      then Some (text_response ''Unauthorized'' 401) else None)"

definition hex_digit :: "nat \<Rightarrow> char" where
  "hex_digit n = ''0123456789abcdef'' ! (n mod 16)"

definition randHex :: "env \<Rightarrow> nat \<Rightarrow> string" where
  "randHex env bytes =
     concat (map (\<lambda>i. [hex_digit (unat (random_byte env i) div 16),
                         hex_digit (unat (random_byte env i))]) [0..<bytes])"

fun decimal :: "nat \<Rightarrow> string" where
  "decimal n =
     (if n < 10 then [''0123456789'' ! n]
      else decimal (n div 10) @ [''0123456789'' ! (n mod 10)])"

definition makeTransactionId :: "env \<Rightarrow> string" where
  "makeTransactionId env = ''tx_'' @ decimal (date_now env) @ ''_'' @ randHex env 4"

definition normalizePath :: "string \<Rightarrow> string" where
  "normalizePath p =
     (if rev (dropWhile (\<lambda>c. c = CHR ''/'') (rev p)) = [] then ''/''
      else rev (dropWhile (\<lambda>c. c = CHR ''/'') (rev p)))"

subsection \<open>Heartbeat recorder\<close>

text \<open>\<open>PRAGMA table_info('device_heartbeat')\<close>, read once and kept for the process.\<close>

definition getHeartbeatCols :: "env \<Rightarrow> state \<Rightarrow> string set option \<times> state" where
  "getHeartbeatCols env st =
     (if heartbeatChecked st then (heartbeatCols st, st)
      else if pragma_raises env
      then (Some {}, st\<lparr>heartbeatChecked := True, heartbeatCols := Some {}\<rparr>)
      else (Some (set (hb_columns st)),
            st\<lparr>heartbeatChecked := True, heartbeatCols := Some (set (hb_columns st))\<rparr>))"

text \<open>
  The columns and values of the INSERT (\<open>addCol\<close>) and the columns of
  \<open>DO UPDATE SET c=excluded.c\<close>, in the order the handler pushes them.
\<close>

definition heartbeat_insert :: "string set \<Rightarrow> string \<Rightarrow> string \<Rightarrow> string \<Rightarrow> string
    \<Rightarrow> string \<Rightarrow> int \<Rightarrow> (string \<times> sqlval) list" where
  "heartbeat_insert cols keyCol sid token ip version now =
     [(keyCol, SText (if keyCol = ''store_id'' then sid else token))]
     @ (if ''store_id'' \<in> cols \<and> keyCol \<noteq> ''store_id'' then [(''store_id'', SText sid)] else [])
     @ (if ''last_seen'' \<in> cols then [(''last_seen'', STime now)] else [])
     @ (if ''ip_address'' \<in> cols then [(''ip_address'', SText ip)] else [])
     @ (if ''firmware_version'' \<in> cols then [(''firmware_version'', SText version)] else [])"

definition heartbeat_updates :: "string set \<Rightarrow> string \<Rightarrow> string list" where
  "heartbeat_updates cols keyCol =
     (if ''last_seen'' \<in> cols then [''last_seen''] else [])
     @ (if ''ip_address'' \<in> cols then [''ip_address''] else [])
     @ (if ''firmware_version'' \<in> cols then [''firmware_version''] else [])
     @ (if ''store_id'' \<in> cols \<and> keyCol \<noteq> ''store_id'' then [''store_id''] else [])"

text \<open>
  Modelled from the spec: the declaration of \<open>device_heartbeat\<close> is not in the sources.
  The record is "keyed by a device identity", so the key column is taken to be unique:
  \<open>INSERT ... ON CONFLICT(key) DO UPDATE SET ...\<close> rewrites the listed columns of the
  row that has the key and appends a row otherwise; without a \<open>DO UPDATE\<close> clause an
  existing key makes the INSERT raise (\<open>None\<close>).
\<close>

definition run_heartbeat :: "string \<Rightarrow> (string \<times> sqlval) list \<Rightarrow> string list \<Rightarrow> hb_row list
    \<Rightarrow> hb_row list option" where
  "run_heartbeat keyCol ins upds rows =
     (if list_ex (\<lambda>row. row keyCol = map_of ins keyCol) rows
      then (if upds = [] then None
            else Some (map (\<lambda>row. if row keyCol = map_of ins keyCol
                                    then (\<lambda>c. if c \<in> set upds then map_of ins c else row c)
                                    else row) rows))
      else Some (rows @ [map_of ins]))"

text \<open>
  The \<open>try { ... } catch (err) { console.error("Heartbeat error:", err) }\<close> block:
  \<open>upsert_heartbeat\<close> is the part under \<open>if (keyCol)\<close>, \<open>record_heartbeat\<close> the whole
  block.
\<close>

definition upsert_heartbeat :: "env \<Rightarrow> string \<Rightarrow> string set \<Rightarrow> string \<Rightarrow> string \<Rightarrow> string
    \<Rightarrow> string \<Rightarrow> state \<Rightarrow> state" where
  "upsert_heartbeat env keyCol cols sid token ip version st =
     (if heartbeat_raises env
      then st\<lparr>console := console st @ [''Heartbeat error:'']\<rparr>
      else (case run_heartbeat keyCol
                   (heartbeat_insert cols keyCol sid token ip version (sql_now env))
                   (heartbeat_updates cols keyCol) (device_heartbeat st) of
              None \<Rightarrow> st\<lparr>console := console st @ [''Heartbeat error:'']\<rparr>
            | Some rows \<Rightarrow> st\<lparr>device_heartbeat := rows\<rparr>))"

definition record_heartbeat :: "env \<Rightarrow> request \<Rightarrow> string \<Rightarrow> string \<Rightarrow> state \<Rightarrow> state" where
  "record_heartbeat env request sid token st =
     (case pickHeartbeatKey (fst (getHeartbeatCols env st)) of
        None \<Rightarrow> snd (getHeartbeatCols env st)
      | Some keyCol \<Rightarrow>
          upsert_heartbeat env keyCol
            (case fst (getHeartbeatCols env st) of None \<Rightarrow> {} | Some cols \<Rightarrow> cols)
            sid token
            (header_or request ''cf-connecting-ip'' ''0.0.0.0'')
            (header_or request ''user-agent'' ''Unknown'')
            (snd (getHeartbeatCols env st)))"

subsection \<open>Device poll: GET /next-transaction\<close>

definition find_store :: "string \<Rightarrow> state \<Rightarrow> store option" where
  "find_store sid st = find (\<lambda>s. store_id s = sid) (stores st)"

text \<open>The claim loop on the state: the answer, and the table as the loop leaves it.\<close>

definition claim :: "string \<Rightarrow> state \<Rightarrow> response \<times> state" where
  "claim sid st =
     (fst (claim_loop 0 sid (transactions st)),
      st\<lparr>transactions := snd (claim_loop 0 sid (transactions st))\<rparr>)"

definition next_transaction :: "env \<Rightarrow> request \<Rightarrow> state \<Rightarrow> response \<times> state" where
  "next_transaction env request st =
     (let sid = trim (or_empty (searchParams request ''store_id'')) in
      if sid = [] then (text_response ''store_id required'' 400, st)
      else case getDeviceToken request of
        None \<Rightarrow> (text_response ''x-device-token required'' 401, st)
      | Some token \<Rightarrow>
          (case find_store sid st of
             None \<Rightarrow> (text_response ''Invalid or disabled store'' 403, st)
           | Some store \<Rightarrow>
               if enabled store \<noteq> 1 then (text_response ''Invalid or disabled store'' 403, st)
               else if trim (device_token store) \<noteq> token then (text_response ''Unauthorized'' 401, st)
               else claim sid (record_heartbeat env request sid token st)))"

text \<open>The same device polling again and again, one call after the other.\<close>

fun polls :: "env list \<Rightarrow> request \<Rightarrow> state \<Rightarrow> response list" where
  "polls [] request st = []"
| "polls (e # es) request st =
     fst (next_transaction e request st) # polls es request (snd (next_transaction e request st))"

subsection \<open>Cashier: POST /qris\<close>

text \<open>
  Modelled from the spec: the declaration of \<open>transactions\<close> is not in the sources.
  \<open>id\<close> is "a monotonic surrogate, assigned by storage on insert": the new row gets an
  id above every id in the table.
\<close>

definition next_row_id :: "transaction list \<Rightarrow> nat" where
  "next_row_id txs = Suc (fold max (map row_id txs) 0)"

definition insert_transaction :: "string \<Rightarrow> string \<Rightarrow> int \<Rightarrow> transaction list \<Rightarrow> transaction list" where
  "insert_transaction tid sid amt txs =
     txs @ [\<lparr>row_id = next_row_id txs, transaction_id = tid, tx_store_id = sid,
              amount = amt, played = 0\<rparr>]"

definition qris :: "env \<Rightarrow> request \<Rightarrow> state \<Rightarrow> response \<times> state" where
  "qris env request st =
     (case requireApi request env of
        Some unauth \<Rightarrow> (unauth, st)
      | None \<Rightarrow>
          (case json_body request of
             None \<Rightarrow> (text_response ''Invalid JSON'' 400, st)
           | Some b \<Rightarrow>
               (let sid = trim (or_empty (b_store_id b)) in
                if sid = [] then (text_response ''store_id required'' 400, st)
                else case b_amount b of
                  Finite a \<Rightarrow>
                    if a \<le> 0 then (text_response ''amount must be positive number'' 400, st)
                    else (case find_store sid st of
                            None \<Rightarrow> (text_response ''Store disabled or not registered'' 403, st)
                          | Some store \<Rightarrow>
                              if enabled store \<noteq> 1
                              then (text_response ''Store disabled or not registered'' 403, st)
                              else (json (JsonCreated (makeTransactionId env)),
                                    st\<lparr>transactions :=
                                         insert_transaction (makeTransactionId env) sid \<lfloor>a\<rfloor>
                                           (transactions st)\<rparr>))
                | _ \<Rightarrow> (text_response ''amount must be positive number'' 400, st))))"

subsection \<open>Administration\<close>

text \<open>The test \<open>/^[a-z0-9._-]+$/i\<close> on a store id.\<close>

definition valid_store_id :: "string \<Rightarrow> bool" where
  "valid_store_id s =
     (s \<noteq> [] \<and>
      list_all (\<lambda>c. c \<in> set ''abcdefghijklmnopqrstuvwxyzABCDEFGHIJKLMNOPQRSTUVWXYZ0123456789._-'') s)"

text \<open>
  \<open>INSERT INTO stores (store_id, name, device_token, enabled) VALUES (?, ?, ?, 1)
  ON CONFLICT(store_id) DO UPDATE SET name=excluded.name, enabled=1,
  device_token=excluded.device_token\<close>, with \<open>store_id\<close> the key of the table.
\<close>

definition upsert_store :: "string \<Rightarrow> string \<Rightarrow> string \<Rightarrow> store list \<Rightarrow> store list" where
  "upsert_store sid nm tok ss =
     (if list_ex (\<lambda>s. store_id s = sid) ss
      then map (\<lambda>s. if store_id s = sid then s\<lparr>name := nm, device_token := tok, enabled := 1\<rparr>
                     else s) ss
      else ss @ [\<lparr>store_id = sid, name = nm, device_token = tok, enabled = 1\<rparr>])"

definition admin_upsert_store :: "env \<Rightarrow> request \<Rightarrow> state \<Rightarrow> response \<times> state" where
  "admin_upsert_store env request st =
     (case requireAdmin request env of
        Some unauth \<Rightarrow> (unauth, st)
      | None \<Rightarrow>
          (case json_body request of
             None \<Rightarrow> (text_response ''Invalid JSON'' 400, st)
           | Some b \<Rightarrow>
               (let sid = trim (or_empty (b_store_id b));
                    nm = trim (or_empty (b_name b));
                    providedToken = trim (or_empty (b_device_token b))
                in if sid = [] \<or> nm = [] then (text_response ''store_id, name required'' 400, st)
                   else if \<not> valid_store_id sid then (text_response ''store_id invalid'' 400, st)
                   else
                     (let tok =
                        (if providedToken \<noteq> [] then providedToken
                         else case find_store sid st of
                                Some existing \<Rightarrow>
                                  if device_token existing \<noteq> [] then device_token existing
                                  else ''sb_'' @ randHex env 16
                              | None \<Rightarrow> ''sb_'' @ randHex env 16)
                      in (json (JsonStore sid nm tok),
                          st\<lparr>stores := upsert_store sid nm tok (stores st)\<rparr>)))))"

text \<open>The enable and disable routes: \<open>UPDATE stores SET enabled=? WHERE store_id=?\<close>.\<close>

definition admin_set_enabled :: "int \<Rightarrow> env \<Rightarrow> request \<Rightarrow> state \<Rightarrow> response \<times> state" where
  "admin_set_enabled v env request st =
     (case requireAdmin request env of
        Some unauth \<Rightarrow> (unauth, st)
      | None \<Rightarrow>
          (case json_body request of
             None \<Rightarrow> (text_response ''Invalid JSON'' 400, st)
           | Some b \<Rightarrow>
               (let sid = trim (or_empty (b_store_id b)) in
                if sid = [] then (text_response ''store_id required'' 400, st)
                else (json (JsonEnabled sid v),
                      st\<lparr>stores := map (\<lambda>s. if store_id s = sid then s\<lparr>enabled := v\<rparr> else s)
                                        (stores st)\<rparr>))))"

definition admin_delete_store :: "env \<Rightarrow> request \<Rightarrow> state \<Rightarrow> response \<times> state" where
  "admin_delete_store env request st =
     (case requireAdmin request env of
        Some unauth \<Rightarrow> (unauth, st)
      | None \<Rightarrow>
          (case json_body request of
             None \<Rightarrow> (text_response ''Invalid JSON'' 400, st)
           | Some b \<Rightarrow>
               (let sid = trim (or_empty (b_store_id b)) in
                if sid = [] then (text_response ''store_id required'' 400, st)
                else (json (JsonDeleted sid),
                      st\<lparr>stores := filter (\<lambda>s. store_id s \<noteq> sid) (stores st)\<rparr>))))"

definition admin_regen_token :: "env \<Rightarrow> request \<Rightarrow> state \<Rightarrow> response \<times> state" where
  "admin_regen_token env request st =
     (case requireAdmin request env of
        Some unauth \<Rightarrow> (unauth, st)
      | None \<Rightarrow>
          (case json_body request of
             None \<Rightarrow> (text_response ''Invalid JSON'' 400, st)
           | Some b \<Rightarrow>
               (let sid = trim (or_empty (b_store_id b)) in
                if sid = [] then (text_response ''store_id required'' 400, st)
                else
                  (if length (filter (\<lambda>s. store_id s = sid) (stores st)) \<noteq> 1
                   then text_response ''Store not found'' 404
                   else json (JsonToken sid (''sb_'' @ randHex env 16)),
                   st\<lparr>stores := map (\<lambda>s. if store_id s = sid
                                            then s\<lparr>device_token := ''sb_'' @ randHex env 16\<rparr> else s)
                                     (stores st)\<rparr>))))"

text \<open>\<open>DELETE FROM transactions WHERE store_id = ?\<close>.\<close>

definition admin_clear_transactions :: "env \<Rightarrow> request \<Rightarrow> state \<Rightarrow> response \<times> state" where
  "admin_clear_transactions env request st =
     (case requireAdmin request env of
        Some unauth \<Rightarrow> (unauth, st)
      | None \<Rightarrow>
          (case json_body request of
             None \<Rightarrow> (text_response ''Invalid JSON'' 400, st)
           | Some b \<Rightarrow>
               (let sid = trim (or_empty (b_store_id b)) in
                if sid = [] then (text_response ''store_id required'' 400, st)
                else (json (JsonCleared sid
                              (length (filter (\<lambda>r. tx_store_id r = sid) (transactions st)))),
                      st\<lparr>transactions := filter (\<lambda>r. tx_store_id r \<noteq> sid) (transactions st)\<rparr>))))"

text \<open>The listing routes read the tables; the device listing also resolves the columns.\<close>

definition admin_list :: "env \<Rightarrow> request \<Rightarrow> state \<Rightarrow> response \<times> state" where
  "admin_list env request st =
     (case requireAdmin request env of
        Some unauth \<Rightarrow> (unauth, st)
      | None \<Rightarrow> (json JsonRows, st))"

definition admin_list_devices :: "env \<Rightarrow> request \<Rightarrow> state \<Rightarrow> response \<times> state" where
  "admin_list_devices env request st =
     (case requireAdmin request env of
        Some unauth \<Rightarrow> (unauth, st)
      | None \<Rightarrow> (json JsonRows, snd (getHeartbeatCols env st)))"

subsection \<open>The router\<close>

definition fetch :: "env \<Rightarrow> request \<Rightarrow> state \<Rightarrow> response \<times> state" where
  "fetch env request st =
     (let m = req_method request; path = normalizePath (pathname request) in
      if m = ''OPTIONS'' then (\<lparr>status = 204, body = Empty\<rparr>, st)
      else if path = ''/'' \<and> m = ''GET'' then (json JsonHealth, st)
      else if path = ''/admin/stores'' \<and> m = ''POST'' then admin_upsert_store env request st
      else if path = ''/admin/stores'' \<and> m = ''GET'' then admin_list env request st
      else if path = ''/admin/stores/enable'' \<and> m = ''POST'' then admin_set_enabled 1 env request st
      else if path = ''/admin/stores/disable'' \<and> m = ''POST'' then admin_set_enabled 0 env request st
      else if path = ''/admin/stores/delete'' \<and> m = ''POST'' then admin_delete_store env request st
      else if path = ''/admin/stores/regen-token'' \<and> m = ''POST'' then admin_regen_token env request st
      else if path = ''/admin/transactions'' \<and> m = ''GET'' then admin_list env request st
      else if path = ''/admin/transactions/clear'' \<and> m = ''POST''
        then admin_clear_transactions env request st
      else if path = ''/admin/devices'' \<and> m = ''GET'' then admin_list_devices env request st
      else if path = ''/qris'' \<and> m = ''POST'' then qris env request st
      else if path = ''/next-transaction'' \<and> m = ''GET'' then next_transaction env request st
      else (text_response ''Not found'' 404, st))"

text \<open>Requests served one after the other; the answers in order, and the final state.\<close>

fun serve :: "(env \<times> request) list \<Rightarrow> state \<Rightarrow> response list \<times> state" where
  "serve [] st = ([], st)"
| "serve (c # cs) st =
     (fst (fetch (fst c) (snd c) st) # fst (serve cs (snd (fetch (fst c) (snd c) st))),
      snd (serve cs (snd (fetch (fst c) (snd c) st))))"

subsection \<open>Offline alert scheduler\<close>

text \<open>The join predicate the adapter returned, read on a store row and a heartbeat row.\<close>

definition join_holds :: "string \<Rightarrow> store \<Rightarrow> hb_row \<Rightarrow> bool" where
  "join_holds joinExpr s d =
     (if joinExpr = ''s.device_token = d.device_token''
        then d ''device_token'' = Some (SText (device_token s))
      else if joinExpr = ''s.device_token = d.device_id''
        then d ''device_id'' = Some (SText (device_token s))
      else if joinExpr = ''s.device_token = d.token''
        then d ''token'' = Some (SText (device_token s))
      else if joinExpr = ''s.store_id = d.store_id''
        then d ''store_id'' = Some (SText (store_id s))
      else False)"

text \<open>
  \<open>SELECT s.name, s.store_id, d.last_seen FROM stores s JOIN device_heartbeat d ON <join>
  WHERE s.enabled = 1 AND d.last_seen < datetime('now', '-30 minutes')
  AND d.last_seen > datetime('now', '-24 hours')\<close>: the store and the instant of
  \<open>last_seen\<close> of every row of the join the WHERE clause keeps.
\<close>

definition offline_devices :: "string \<Rightarrow> int \<Rightarrow> state \<Rightarrow> (store \<times> int) list" where
  "offline_devices joinExpr now st =
     concat (map (\<lambda>s. concat (map (\<lambda>d.
        (case d ''last_seen'' of
           Some (STime t) \<Rightarrow>
             if enabled s = 1 \<and> join_holds joinExpr s d
                \<and> t < now - 30 * 60 \<and> t > now - 24 * 3600
             then [(s, t)] else []
         | _ \<Rightarrow> [])) (device_heartbeat st))) (stores st))"

text \<open>
  One run of \<open>scheduled\<close>: the alerts it hands to \<open>sendAlert\<close> (store name, minutes
  offline), in order, and the state after the run. A table without a \<open>last_seen\<close>
  column makes the query raise, which the run catches and logs.
\<close>

definition scheduled :: "env \<Rightarrow> state \<Rightarrow> (string \<times> int) list \<times> state" where
  "scheduled env st =
     (let cols = fst (getHeartbeatCols env st); st1 = snd (getHeartbeatCols env st) in
      case getHeartbeatJoinExpr cols of
        None \<Rightarrow>
          ([], st1\<lparr>console := console st1
                     @ [''Skip scheduled check: device_heartbeat key column not found.'']\<rparr>)
      | Some joinExpr \<Rightarrow>
          if ''last_seen'' \<notin> set (hb_columns st1)
          then ([], st1\<lparr>console := console st1 @ [''Scheduled task error:'']\<rparr>)
          else (map (\<lambda>(s, t). (name s, (int (date_now env) - t * 1000) div 60000))
                  (offline_devices joinExpr (sql_now env) st1),
                st1\<lparr>console := console st1 @ [''Scheduled check done.'']\<rparr>))"

subsection \<open>A deployment for the examples\<close>

text \<open>
  Store \<open>S1\<close> is enabled with credential \<open>tok123\<close> and has three pending transactions;
  store \<open>S2\<close> is disabled. The heartbeat table is keyed by \<open>device_token\<close>.
\<close>

definition demo_state :: state where
  "demo_state =
     \<lparr>stores =
        [\<lparr>store_id = ''S1'', name = ''Toko Satu'', device_token = ''tok123'', enabled = 1\<rparr>,
         \<lparr>store_id = ''S2'', name = ''Toko Dua'', device_token = ''tok456'', enabled = 0\<rparr>],
      transactions =
        [\<lparr>row_id = 1, transaction_id = ''A'', tx_store_id = ''S1'', amount = 15000, played = 0\<rparr>,
         \<lparr>row_id = 2, transaction_id = ''B'', tx_store_id = ''S1'', amount = 2500, played = 0\<rparr>,
         \<lparr>row_id = 3, transaction_id = ''C'', tx_store_id = ''S1'', amount = 700, played = 0\<rparr>],
      hb_columns = [''device_token'', ''last_seen'', ''ip_address''],
      device_heartbeat = [],
      heartbeatCols = None,
      heartbeatChecked = False,
      console = []\<rparr>"

definition demo_env :: env where
  "demo_env =
     \<lparr>ADMIN_KEY = Some ''admin-key'', API_KEY = Some ''api-key'',
      date_now = 1700000000999, sql_now = 1700000000,
      random_byte = (\<lambda>i. of_nat (16 * i + 10)),
      pragma_raises = False, heartbeat_raises = False\<rparr>"

definition demo_poll :: "string \<Rightarrow> string option \<Rightarrow> request" where
  "demo_poll sid token =
     \<lparr>req_method = ''GET'', pathname = ''/next-transaction'',
      headers = (case token of None \<Rightarrow> Map.empty | Some t \<Rightarrow> [''x-device-token'' \<mapsto> t]),
      searchParams = [''store_id'' \<mapsto> sid], json_body = None\<rparr>"

definition demo_qris :: "string \<Rightarrow> number \<Rightarrow> request" where
  "demo_qris sid amt =
     \<lparr>req_method = ''POST'', pathname = ''/qris'',
      headers = [''x-api-key'' \<mapsto> ''api-key''], searchParams = Map.empty,
      json_body = Some \<lparr>b_store_id = Some sid, b_name = None, b_device_token = None,
                        b_amount = amt\<rparr>\<rparr>"

definition demo_upsert :: "string \<Rightarrow> string \<Rightarrow> string option \<Rightarrow> request" where
  "demo_upsert sid nm token =
     \<lparr>req_method = ''POST'', pathname = ''/admin/stores'',
      headers = [''x-admin-key'' \<mapsto> ''admin-key''], searchParams = Map.empty,
      json_body = Some \<lparr>b_store_id = Some sid, b_name = Some nm, b_device_token = token,
                        b_amount = NaN\<rparr>\<rparr>"

text \<open>
  Heartbeats seen 45 minutes ago (store \<open>S1\<close>), one hour ago (the disabled store \<open>S2\<close>)
  and 25 hours ago (store \<open>S1\<close> again).
\<close>

definition demo_heartbeats :: "hb_row list" where
  "demo_heartbeats =
     [[''device_token'' \<mapsto> SText ''tok123'', ''last_seen'' \<mapsto> STime (1700000000 - 45 * 60)],
      [''device_token'' \<mapsto> SText ''tok456'', ''last_seen'' \<mapsto> STime (1700000000 - 60 * 60)],
      [''device_token'' \<mapsto> SText ''tok123'', ''last_seen'' \<mapsto> STime (1700000000 - 25 * 3600)]]"

subsection \<open>Notions used in the statements\<close>

text \<open>
  The store a poll names; a poll that passes the store and credential checks; the
  pending transactions of a store in the order of their ids; the answer that hands a
  transaction out; the transaction id an answer hands out.
\<close>

definition poll_store :: "request \<Rightarrow> string" where
  "poll_store request = trim (or_empty (searchParams request ''store_id''))"

definition poll_admitted :: "request \<Rightarrow> state \<Rightarrow> bool" where
  "poll_admitted request st =
     (poll_store request \<noteq> [] \<and>
      (case getDeviceToken request of
         None \<Rightarrow> False
       | Some token \<Rightarrow>
           (case find_store (poll_store request) st of
              None \<Rightarrow> False
            | Some store \<Rightarrow> enabled store = 1 \<and> trim (device_token store) = token)))"

definition queue :: "string \<Rightarrow> state \<Rightarrow> transaction list" where
  "queue sid st = sort_key row_id (pending sid (transactions st))"

definition available :: "string \<Rightarrow> transaction \<Rightarrow> response" where
  "available sid r = json (JsonAvailable (transaction_id r) (amount r) sid)"

definition returned_id :: "response \<Rightarrow> string option" where
  "returned_id resp = (case body resp of JsonAvailable t a s \<Rightarrow> Some t | _ \<Rightarrow> None)"

text \<open>
  The table after the conditional UPDATE has run for each of the listed ids; a
  transaction id none of whose rows is still pending; a request the router hands to the
  cashier route.
\<close>

definition mark_played :: "nat list \<Rightarrow> transaction list \<Rightarrow> transaction list" where
  "mark_played ids txs = fold (\<lambda>x t. fst (update_played x t)) ids txs"

definition spent :: "string \<Rightarrow> transaction list \<Rightarrow> bool" where
  "spent tid txs = (\<forall>r \<in> set txs. transaction_id r = tid \<longrightarrow> played r \<noteq> 0)"

definition is_qris :: "request \<Rightarrow> bool" where
  "is_qris request = (req_method request = ''POST'' \<and> normalizePath (pathname request) = ''/qris'')"

subsection \<open>Invariants of the claim loop\<close>

definition poll_rank :: "poller \<Rightarrow> nat" where
  "poll_rank p =
     (case p_pc p of
        AtSelect i \<Rightarrow> 2 * (3 - i) + 1
      | AtUpdate i row \<Rightarrow> 2 * (3 - i)
      | Returned r \<Rightarrow> 0)"

definition poll_inv :: "poller \<Rightarrow> bool" where
  "poll_inv p =
     (case p_pc p of
        AtSelect i \<Rightarrow> length (p_changes p) = i \<and> i \<le> 3 \<and> 1 \<notin> set (p_changes p)
      | AtUpdate i row \<Rightarrow> length (p_changes p) = i \<and> i < 3 \<and> 1 \<notin> set (p_changes p)
      | Returned r \<Rightarrow>
          length (p_changes p) \<le> 3 \<and>
          (if 1 \<in> set (p_changes p)
           then (\<exists>t a. r = json (JsonAvailable t a (p_store p)))
           else r = json JsonNotAvailable))"

definition same_rows :: "transaction list \<Rightarrow> transaction list \<Rightarrow> bool" where
  "same_rows txs0 txs =
     (\<forall>r \<in> set txs. r \<in> set txs0 \<or> (\<exists>r0 \<in> set txs0. played r0 = 0 \<and> r = r0\<lparr>played := 1\<rparr>))"

definition row_done :: "transaction list \<Rightarrow> nat \<Rightarrow> bool" where
  "row_done txs x = (\<forall>r \<in> set txs. row_id r = x \<longrightarrow> played r \<noteq> 0)"

definition poller_ok :: "transaction list \<Rightarrow> transaction list \<Rightarrow> poller \<Rightarrow> bool" where
  "poller_ok txs0 txs p =
     ((\<forall>i row. p_pc p = AtUpdate i row \<longrightarrow>
         (\<exists>r \<in> set txs0. row_id r = row_id row \<and> transaction_id r = transaction_id row
            \<and> tx_store_id r = p_store p))
      \<and> (\<forall>t. claimed p = Some t \<longrightarrow>
         (\<exists>r \<in> set txs0. played r = 0 \<and> transaction_id r = t \<and> tx_store_id r = p_store p
            \<and> row_done txs (row_id r))))"

definition sys_inv :: "transaction list \<Rightarrow> transaction list \<times> poller list \<Rightarrow> bool" where
  "sys_inv txs0 sys =
     (same_rows txs0 (fst sys)
      \<and> (\<forall>p \<in> set (snd sys). poller_ok txs0 (fst sys) p)
      \<and> (\<forall>i < length (snd sys). \<forall>j < length (snd sys). \<forall>t.
            i \<noteq> j \<longrightarrow> claimed (snd sys ! i) = Some t \<longrightarrow> claimed (snd sys ! j) \<noteq> Some t))"

definition winners :: "poller list \<Rightarrow> string list" where
  "winners ps = List.map_filter claimed ps"

definition tx_effect :: "bool \<Rightarrow> env \<Rightarrow> transaction list \<Rightarrow> response \<times> state \<Rightarrow> bool" where
  "tx_effect q env T res =
     ((\<exists>ids. transactions (snd res) = mark_played ids T
          \<and> (\<forall>t. returned_id (fst res) = Some t \<longrightarrow>
                (\<exists>r \<in> set T. played r = 0 \<and> transaction_id r = t)))
      \<or> (q \<and> returned_id (fst res) = None
          \<and> (\<exists>sid amt. transactions (snd res) = insert_transaction (makeTransactionId env) sid amt T))
      \<or> (returned_id (fst res) = None
          \<and> (\<exists>sid. transactions (snd res) = filter (\<lambda>r. tx_store_id r \<noteq> sid) T)))"

section \<open>Properties\<close>

subsection \<open>Schema adapter\<close>

lemma adapter_unavailable_iff:
  "getHeartbeatJoinExpr (Some cols) = None \<longleftrightarrow>
     cols \<inter> {''device_token'', ''device_id'', ''token'', ''store_id''} = {}"
  "pickHeartbeatKey (Some cols) = None \<longleftrightarrow>
     cols \<inter> {''device_token'', ''device_id'', ''token'', ''store_id''} = {}"
  by auto

text \<open>
  C5. The join predicate and the upsert key do not follow the same preference: on a
  table that has both a \<open>device_token\<close> and a \<open>device_id\<close> column the join is made on
  \<open>d.device_token\<close> while the heartbeat is keyed by \<open>device_id\<close>.
\<close>

theorem adapter_order_mismatch:
  "getHeartbeatJoinExpr (Some {''device_id'', ''device_token''})
     = Some ''s.device_token = d.device_token''
   \<and> pickHeartbeatKey (Some {''device_id'', ''device_token''}) = Some ''device_id''"
  by simp

subsection \<open>The claim loop under interference\<close>

lemma poll_step_store: "p_store (fst (poll_step p txs)) = p_store p"
  by (simp add: poll_step_def split: pc.splits option.splits)

lemma poll_step_inv: "poll_inv p \<Longrightarrow> poll_inv (fst (poll_step p txs))"
  by (auto simp: poll_inv_def poll_step_def split: pc.splits option.splits)

lemma poll_step_rank: "poll_inv p \<Longrightarrow> poll_rank (fst (poll_step p txs)) \<le> poll_rank p - 1"
  by (auto simp: poll_inv_def poll_rank_def poll_step_def split: pc.splits option.splits)

lemma poll_run_inv:
  "poll_inv p \<Longrightarrow>
     poll_inv (fst (poll_run es p txs))
     \<and> poll_rank (fst (poll_run es p txs)) \<le> poll_rank p - length es"
proof (induction es arbitrary: p txs)
  case Nil
  then show ?case by simp
next
  case (Cons e es)
  let ?q = "fst (poll_step p (e txs))"
  let ?t = "snd (poll_step p (e txs))"
  have q: "poll_inv ?q" using Cons.prems by (rule poll_step_inv)
  have r: "poll_rank ?q \<le> poll_rank p - 1" using Cons.prems by (rule poll_step_rank)
  from Cons.IH [OF q, of ?t] r show ?case by (simp, arith)
qed

lemma poll_run_store: "p_store (fst (poll_run es p txs)) = p_store p"
  by (induction es arbitrary: p txs) (simp_all add: poll_step_store)

lemma rank_zero: "poll_inv p \<Longrightarrow> poll_rank p = 0 \<Longrightarrow> \<exists>r. p_pc p = Returned r"
  by (auto simp: poll_rank_def poll_inv_def split: pc.splits)

text \<open>
  C9. Whatever the other requests do to the table between the steps of a call, the call
  runs at most three UPDATEs; after seven steps (three SELECTs, three UPDATEs and the
  exit of the loop) it has returned, with status 200 and either
  \<open>{available: false}\<close> or a claimed transaction; and when no UPDATE reported exactly one
  changed row (in particular when each reported zero), the answer is
  \<open>{available: false}\<close>.
\<close>

theorem retry_budget:
  "length (p_changes (fst (poll_run es (start_poll sid) txs))) \<le> 3
   \<and> (7 \<le> length es \<longrightarrow>
        (\<exists>r. p_pc (fst (poll_run es (start_poll sid) txs)) = Returned r \<and> status r = 200
           \<and> (r = json JsonNotAvailable \<or> (\<exists>t a. r = json (JsonAvailable t a sid)))
           \<and> ((\<forall>c \<in> set (p_changes (fst (poll_run es (start_poll sid) txs))). c \<noteq> 1)
                \<longrightarrow> r = json JsonNotAvailable)))"
proof -
  let ?p = "fst (poll_run es (start_poll sid) txs)"
  have i0: "poll_inv (start_poll sid)" by (simp add: poll_inv_def start_poll_def)
  have r0: "poll_rank (start_poll sid) = 7" by (simp add: poll_rank_def start_poll_def)
  have inv: "poll_inv ?p" and rk: "poll_rank ?p \<le> 7 - length es"
    using poll_run_inv [OF i0, of es txs] r0 by simp_all
  have st: "p_store ?p = sid" by (simp add: poll_run_store start_poll_def)
  have a: "length (p_changes ?p) \<le> 3"
    using inv by (auto simp: poll_inv_def split: pc.splits)
  have b: "\<exists>r. p_pc ?p = Returned r \<and> status r = 200
           \<and> (r = json JsonNotAvailable \<or> (\<exists>t a. r = json (JsonAvailable t a sid)))
           \<and> ((\<forall>c \<in> set (p_changes ?p). c \<noteq> 1) \<longrightarrow> r = json JsonNotAvailable)"
    if "7 \<le> length es"
  proof -
    from that rk have "poll_rank ?p = 0" by simp
    then obtain r where r: "p_pc ?p = Returned r" using rank_zero [OF inv] by blast
    with inv st show ?thesis by (auto simp: poll_inv_def json_def split: if_splits)
  qed
  from a b show ?thesis by blast
qed

theorem retry_budget_witness:
  "p_changes (fst (poll_run
      [id, (\<lambda>t. fst (update_played 1 t)), id, (\<lambda>t. fst (update_played 2 t)), id,
       (\<lambda>t. fst (update_played 3 t)), id]
      (start_poll ''S1'')
      [\<lparr>row_id = 1, transaction_id = ''A'', tx_store_id = ''S1'', amount = 5, played = 0\<rparr>,
       \<lparr>row_id = 2, transaction_id = ''B'', tx_store_id = ''S1'', amount = 6, played = 0\<rparr>,
       \<lparr>row_id = 3, transaction_id = ''C'', tx_store_id = ''S1'', amount = 7, played = 0\<rparr>]))
     = [0, 0, 0]
   \<and> p_pc (fst (poll_run
      [id, (\<lambda>t. fst (update_played 1 t)), id, (\<lambda>t. fst (update_played 2 t)), id,
       (\<lambda>t. fst (update_played 3 t)), id]
      (start_poll ''S1'')
      [\<lparr>row_id = 1, transaction_id = ''A'', tx_store_id = ''S1'', amount = 5, played = 0\<rparr>,
       \<lparr>row_id = 2, transaction_id = ''B'', tx_store_id = ''S1'', amount = 6, played = 0\<rparr>,
       \<lparr>row_id = 3, transaction_id = ''C'', tx_store_id = ''S1'', amount = 7, played = 0\<rparr>]))
     = Returned (json JsonNotAvailable)"
proof -
  let ?es = "[id, (\<lambda>t. fst (update_played 1 t)), id, (\<lambda>t. fst (update_played 2 t)), id,
       (\<lambda>t. fst (update_played 3 t)), id]"
  let ?t = "[\<lparr>row_id = 1, transaction_id = ''A'', tx_store_id = ''S1'', amount = 5, played = 0\<rparr>,
       \<lparr>row_id = 2, transaction_id = ''B'', tx_store_id = ''S1'', amount = 6, played = 0\<rparr>,
       \<lparr>row_id = 3, transaction_id = ''C'', tx_store_id = ''S1'', amount = 7, played = 0\<rparr>]"
  have c: "p_changes (fst (poll_run ?es (start_poll ''S1'') ?t)) = [0, 0, 0]"
    by (simp add: start_poll_def poll_step_def select_next_def pending_def update_played_def)
  have "7 \<le> length ?es" by simp
  with retry_budget [of ?es "''S1''" ?t] c show ?thesis by auto
qed

subsection \<open>Concurrent calls\<close>

lemma select_next_Some:
  "select_next sid txs = Some row \<Longrightarrow> row \<in> set txs \<and> played row = 0 \<and> tx_store_id row = sid"
proof -
  assume a: "select_next sid txs = Some row"
  then obtain rest where "sort_key row_id (pending sid txs) = row # rest"
    by (auto simp: select_next_def split: list.splits)
  then have "row \<in> set (sort_key row_id (pending sid txs))" by simp
  then have "row \<in> set (pending sid txs)" by simp
  then show ?thesis by (simp add: pending_def)
qed

lemma same_rows_update:
  assumes "same_rows txs0 txs"
  shows "same_rows txs0 (fst (update_played x txs))"
  unfolding same_rows_def
proof
  fix r' assume "r' \<in> set (fst (update_played x txs))"
  then obtain r where r: "r \<in> set txs"
    and r': "r' = (if row_id r = x \<and> played r = 0 then r\<lparr>played := 1\<rparr> else r)"
    by (auto simp: update_played_def)
  show "r' \<in> set txs0 \<or> (\<exists>r0 \<in> set txs0. played r0 = 0 \<and> r' = r0\<lparr>played := 1\<rparr>)"
  proof (cases "row_id r = x \<and> played r = 0")
    case True
    with assms r have "r \<in> set txs0" by (auto simp: same_rows_def)
    with True r' show ?thesis by auto
  next
    case False
    with assms r r' show ?thesis by (simp add: same_rows_def)
  qed
qed

lemma same_rows_pending: "same_rows txs0 txs \<Longrightarrow> r \<in> set txs \<Longrightarrow> played r = 0 \<Longrightarrow> r \<in> set txs0"
  by (auto simp: same_rows_def)

lemma update_played_row:
  "r' \<in> set (fst (update_played x txs)) \<Longrightarrow>
     r' \<in> set txs \<and> (row_id r' \<noteq> x \<or> played r' \<noteq> 0)
     \<or> (\<exists>r \<in> set txs. row_id r = x \<and> played r = 0 \<and> r' = r\<lparr>played := 1\<rparr>)"
proof -
  assume "r' \<in> set (fst (update_played x txs))"
  then obtain r where r: "r \<in> set txs"
    and r': "r' = (if row_id r = x \<and> played r = 0 then r\<lparr>played := 1\<rparr> else r)"
    by (auto simp: update_played_def)
  show ?thesis
  proof (cases "row_id r = x \<and> played r = 0")
    case True
    then have "r' = r\<lparr>played := 1\<rparr>" using r' by simp
    with True r show ?thesis by blast
  next
    case False
    then have "r' = r" using r' by simp
    with False r show ?thesis by blast
  qed
qed

lemma row_done_update:
  assumes "row_done txs y"
  shows "row_done (fst (update_played x txs)) y"
  unfolding row_done_def
proof (intro ballI impI)
  fix r' assume "r' \<in> set (fst (update_played x txs))" and y: "row_id r' = y"
  from update_played_row [OF this(1)]
  consider (old) "r' \<in> set txs"
    | (new) r where "r' = r\<lparr>played := 1\<rparr>"
    by blast
  then show "played r' \<noteq> 0"
  proof cases
    case old
    with y assms show ?thesis unfolding row_done_def by blast
  next
    case new
    then show ?thesis by simp
  qed
qed

lemma row_done_updated: "row_done (fst (update_played x txs)) x"
  unfolding row_done_def
proof (intro ballI impI)
  fix r' assume "r' \<in> set (fst (update_played x txs))" and x: "row_id r' = x"
  from update_played_row [OF this(1)]
  consider (old) "row_id r' \<noteq> x \<or> played r' \<noteq> 0"
    | (new) r where "r' = r\<lparr>played := 1\<rparr>"
    by blast
  then show "played r' \<noteq> 0"
  proof cases
    case old
    with x show ?thesis by blast
  next
    case new
    then show ?thesis by simp
  qed
qed

lemma update_changes: "snd (update_played x txs) \<noteq> 0 \<Longrightarrow> \<exists>r \<in> set txs. row_id r = x \<and> played r = 0"
  by (auto simp: update_played_def filter_empty_conv)

lemma distinct_map_eq: "distinct (map f xs) \<Longrightarrow> x \<in> set xs \<Longrightarrow> y \<in> set xs \<Longrightarrow> f x = f y \<Longrightarrow> x = y"
  by (auto simp: distinct_map dest: inj_onD)

lemma claimed_step:
  "claimed (fst (poll_step p txs)) = Some t \<Longrightarrow> claimed p \<noteq> Some t \<Longrightarrow>
     \<exists>i row. p_pc p = AtUpdate i row \<and> snd (update_played (row_id row) txs) = 1 \<and> t = transaction_id row"
  by (auto simp: poll_step_def claimed_def json_def split: pc.splits option.splits if_splits)

lemma claimed_keep: "claimed p = Some t \<Longrightarrow> fst (poll_step p txs) = p \<and> snd (poll_step p txs) = txs"
  by (auto simp: poll_step_def claimed_def split: pc.splits)

lemma poll_step_table:
  "snd (poll_step p txs) = txs \<or> (\<exists>i row. p_pc p = AtUpdate i row \<and> snd (poll_step p txs) = fst (update_played (row_id row) txs))"
  by (auto simp: poll_step_def split: pc.splits option.splits)

lemma poller_ok_table:
  assumes "poller_ok txs0 txs p"
  shows "poller_ok txs0 (snd (poll_step q txs)) p"
proof -
  from poll_step_table [of q txs]
  consider "snd (poll_step q txs) = txs"
    | x where "snd (poll_step q txs) = fst (update_played x txs)"
    by blast
  then show ?thesis
  proof cases
    case 1
    with assms show ?thesis by simp
  next
    case 2
    have "row_done (fst (update_played x txs)) y" if "row_done txs y" for y
      using that by (rule row_done_update)
    with assms 2 show ?thesis unfolding poller_ok_def by metis
  qed
qed

lemma pending_row_original:
  assumes sr: "same_rows txs0 txs"
    and d: "distinct (map row_id txs0)"
    and r0: "r0 \<in> set txs0" "row_id r0 = x"
    and ch: "snd (update_played x txs) \<noteq> 0"
  shows "played r0 = 0 \<and> r0 \<in> set txs"
proof -
  from update_changes [OF ch] obtain r where r: "r \<in> set txs" "row_id r = x" "played r = 0"
    by blast
  from same_rows_pending [OF sr r(1) r(3)] have "r \<in> set txs0" .
  with d r0 r(2) have "r = r0" by (auto intro: distinct_map_eq)
  with r show ?thesis by simp
qed

lemma poller_ok_step:
  assumes sr: "same_rows txs0 txs"
    and d: "distinct (map row_id txs0)"
    and ok: "poller_ok txs0 txs p"
  shows "poller_ok txs0 (snd (poll_step p txs)) (fst (poll_step p txs))"
proof (cases "p_pc p")
  case (AtSelect i)
  show ?thesis
  proof (cases "i < 3 \<and> select_next (p_store p) txs \<noteq> None")
    case True
    then obtain row where row: "select_next (p_store p) txs = Some row" by blast
    from select_next_Some [OF row] same_rows_pending [OF sr]
    have "row \<in> set txs0" "tx_store_id row = p_store p" by blast+
    with AtSelect True row show ?thesis
      by (auto simp: poller_ok_def poll_step_def claimed_def)
  next
    case False
    with AtSelect show ?thesis
      by (auto simp: poller_ok_def poll_step_def claimed_def json_def)
  qed
next
  case (AtUpdate i row)
  with ok obtain r0 where r0: "r0 \<in> set txs0" "row_id r0 = row_id row"
    "transaction_id r0 = transaction_id row" "tx_store_id r0 = p_store p"
    unfolding poller_ok_def by blast
  show ?thesis
  proof (cases "snd (update_played (row_id row) txs) = 1")
    case True
    then have "snd (update_played (row_id row) txs) \<noteq> 0" by simp
    from pending_row_original [OF sr d r0(1) r0(2) this] have "played r0 = 0" by simp
    moreover have "row_done (fst (update_played (row_id row) txs)) (row_id r0)"
      using r0(2) row_done_updated [of "row_id row" txs] by simp
    ultimately show ?thesis using AtUpdate True r0
      by (auto simp: poller_ok_def poll_step_def claimed_def json_def)
  next
    case False
    with AtUpdate show ?thesis
      by (auto simp: poller_ok_def poll_step_def claimed_def)
  qed
next
  case (Returned r)
  with ok show ?thesis by (simp add: poll_step_def)
qed

lemma new_claim_fresh:
  assumes sr: "same_rows txs0 txs"
    and d1: "distinct (map row_id txs0)"
    and d2: "distinct (map transaction_id txs0)"
    and okp: "poller_ok txs0 txs p"
    and okq: "poller_ok txs0 txs q"
    and new: "claimed (fst (poll_step p txs)) = Some t" "claimed p \<noteq> Some t"
  shows "claimed q \<noteq> Some t"
proof
  assume q: "claimed q = Some t"
  from claimed_step [OF new] obtain i row where row: "p_pc p = AtUpdate i row"
    "snd (update_played (row_id row) txs) = 1" "t = transaction_id row" by blast
  from okp row(1) obtain r0 where r0: "r0 \<in> set txs0" "row_id r0 = row_id row"
    "transaction_id r0 = transaction_id row"
    unfolding poller_ok_def by blast
  from okq q obtain r1 where r1: "r1 \<in> set txs0" "transaction_id r1 = t"
    "row_done txs (row_id r1)"
    unfolding poller_ok_def by blast
  from d2 r0(1) r1(1) r0(3) r1(2) row(3) have "r1 = r0" by (auto intro: distinct_map_eq)
  with r1(3) r0(2) have rd: "row_done txs (row_id row)" by simp
  from row(2) have "snd (update_played (row_id row) txs) \<noteq> 0" by simp
  from update_changes [OF this] rd show False unfolding row_done_def by blast
qed

lemma sys_step_inv:
  assumes d1: "distinct (map row_id txs0)"
    and d2: "distinct (map transaction_id txs0)"
    and inv: "sys_inv txs0 sys"
  shows "sys_inv txs0 (sys_step k sys)"
proof (cases "k < length (snd sys)")
  case False
  with inv show ?thesis by (simp add: sys_step_def)
next
  case True
  obtain txs ps where sys: "sys = (txs, ps)" by (cases sys)
  let ?p = "ps ! k"
  let ?p' = "fst (poll_step ?p txs)"
  let ?txs' = "snd (poll_step ?p txs)"
  from True sys have k: "k < length ps" by simp
  have step: "sys_step k sys = (?txs', ps[k := ?p'])" using k sys by (simp add: sys_step_def)
  from inv sys have sr: "same_rows txs0 txs"
    and ok: "\<And>q. q \<in> set ps \<Longrightarrow> poller_ok txs0 txs q"
    and pw: "\<And>i j t. i < length ps \<Longrightarrow> j < length ps \<Longrightarrow> i \<noteq> j \<Longrightarrow>
               claimed (ps ! i) = Some t \<Longrightarrow> claimed (ps ! j) \<noteq> Some t"
    by (auto simp: sys_inv_def)
  have okp: "poller_ok txs0 txs ?p" using k ok by simp
  have sr': "same_rows txs0 ?txs'"
    using poll_step_table [of ?p txs] sr same_rows_update by metis
  have ok': "poller_ok txs0 ?txs' q" if "q \<in> set (ps[k := ?p'])" for q
  proof -
    from that set_update_subset_insert have "q = ?p' \<or> q \<in> set ps" by fastforce
    then show ?thesis
    proof
      assume "q = ?p'"
      then show ?thesis using poller_ok_step [OF sr d1 okp] by simp
    next
      assume "q \<in> set ps"
      then show ?thesis using ok poller_ok_table by blast
    qed
  qed
  have pw': "claimed (ps[k := ?p'] ! j) \<noteq> Some t"
    if ij: "i < length ps" "j < length ps" "i \<noteq> j" and c: "claimed (ps[k := ?p'] ! i) = Some t"
    for i j t
  proof (cases "claimed ?p = Some t")
    case True
    then have "?p' = ?p" using claimed_keep by blast
    then have "ps[k := ?p'] = ps" by simp
    with pw ij c show ?thesis by simp
  next
    case old: False
    show ?thesis
    proof (cases "i = k")
      case True
      with c k have new: "claimed ?p' = Some t" by simp
      from True ij have "ps[k := ?p'] ! j = ps ! j" by simp
      moreover have "claimed (ps ! j) \<noteq> Some t"
        using new_claim_fresh [OF sr d1 d2 okp _ new old] ok ij(2) by simp
      ultimately show ?thesis by simp
    next
      case ik: False
      with c have ci: "claimed (ps ! i) = Some t" by simp
      show ?thesis
      proof (cases "j = k")
        case True
        show ?thesis
        proof
          assume "claimed (ps[k := ?p'] ! j) = Some t"
          with True k have new: "claimed ?p' = Some t" by simp
          have "claimed (ps ! i) \<noteq> Some t"
            using new_claim_fresh [OF sr d1 d2 okp _ new old] ok ij(1) by simp
          with ci show False by simp
        qed
      next
        case False
        with pw [OF ij ci] show ?thesis by simp
      qed
    qed
  qed
  show ?thesis
    unfolding step sys_inv_def using sr' ok' pw' by simp
qed

lemma run_schedule_inv:
  assumes "distinct (map row_id txs0)" "distinct (map transaction_id txs0)" "sys_inv txs0 sys"
  shows "sys_inv txs0 (run_schedule sched sys)"
  using assms(3)
proof (induction sched arbitrary: sys)
  case Nil
  then show ?case by (simp add: run_schedule_def)
next
  case (Cons k sched)
  from sys_step_inv [OF assms(1,2) Cons.prems] have "sys_inv txs0 (sys_step k sys)" .
  from Cons.IH [OF this] show ?case by (simp add: run_schedule_def)
qed

lemma sys_inv_start: "sys_inv txs (txs, map start_poll sids)"
  by (auto simp: sys_inv_def same_rows_def poller_ok_def start_poll_def claimed_def)

lemma set_map_filter_claimed: "set (List.map_filter f xs) = {t. \<exists>x \<in> set xs. f x = Some t}"
  by (induction xs) (auto split: option.splits)

lemma pairwise_distinct_map_filter:
  assumes "\<And>i j t. i < length xs \<Longrightarrow> j < length xs \<Longrightarrow> i \<noteq> j \<Longrightarrow> f (xs ! i) = Some t
             \<Longrightarrow> f (xs ! j) \<noteq> Some t"
  shows "distinct (List.map_filter f xs)"
  using assms
proof (induction xs)
  case Nil
  then show ?case by simp
next
  case (Cons x xs)
  have tl: "distinct (List.map_filter f xs)"
  proof (rule Cons.IH)
    fix i j t
    assume "i < length xs" "j < length xs" "i \<noteq> j" "f (xs ! i) = Some t"
    then show "f (xs ! j) \<noteq> Some t"
      using Cons.prems [of "Suc i" "Suc j" t] by simp
  qed
  show ?case
  proof (cases "f x")
    case None
    with tl show ?thesis by simp
  next
    case (Some t)
    have "t \<notin> set (List.map_filter f xs)"
    proof
      assume "t \<in> set (List.map_filter f xs)"
      then obtain y where "y \<in> set xs" "f y = Some t"
        by (auto simp: set_map_filter_claimed)
      then obtain j where "j < length xs" "f (xs ! j) = Some t"
        by (auto simp: in_set_conv_nth)
      with Cons.prems [of 0 "Suc j" t] Some show False by simp
    qed
    with tl Some show ?thesis by simp
  qed
qed

lemma sys_step_stores: "map p_store (snd (sys_step k sys)) = map p_store (snd sys)"
  by (simp add: sys_step_def map_update poll_step_store list_update_same_conv)

lemma run_schedule_stores: "map p_store (snd (run_schedule sched sys)) = map p_store (snd sys)"
  unfolding run_schedule_def
  by (induction sched arbitrary: sys) (simp_all add: sys_step_stores)

text \<open>
  C1. Calls run concurrently, interleaved statement by statement in any order. On a table
  whose ids and transaction ids are unique, no transaction id is returned as newly
  available by two calls, and the calls for a store that return \<open>available: true\<close> are
  at most as many as the pending transactions the store had at the start.
\<close>

theorem at_most_once:
  assumes d1: "distinct (map row_id txs)"
    and d2: "distinct (map transaction_id txs)"
  shows "distinct (winners (snd (run_schedule sched (txs, map start_poll sids))))
    \<and> length (filter (\<lambda>p. p_store p = sid \<and> claimed p \<noteq> None)
                (snd (run_schedule sched (txs, map start_poll sids))))
        \<le> length (pending sid txs)
    \<and> map p_store (snd (run_schedule sched (txs, map start_poll sids))) = sids"
proof -
  let ?ps = "snd (run_schedule sched (txs, map start_poll sids))"
  let ?P = "\<lambda>p. p_store p = sid \<and> claimed p \<noteq> None"
  let ?L = "map (the \<circ> claimed) (filter ?P ?ps)"
  have inv: "sys_inv txs (run_schedule sched (txs, map start_poll sids))"
    using run_schedule_inv [OF d1 d2 sys_inv_start] .
  then have pw: "\<And>i j t. i < length ?ps \<Longrightarrow> j < length ?ps \<Longrightarrow> i \<noteq> j \<Longrightarrow>
      claimed (?ps ! i) = Some t \<Longrightarrow> claimed (?ps ! j) \<noteq> Some t"
    and ok: "\<And>p. p \<in> set ?ps \<Longrightarrow> poller_ok txs (fst (run_schedule sched (txs, map start_poll sids))) p"
    by (auto simp: sys_inv_def)
  have dw: "distinct (winners ?ps)"
    unfolding winners_def using pw by (rule pairwise_distinct_map_filter)
  have "filter ?P ?ps = filter (\<lambda>p. p_store p = sid) (filter (\<lambda>p. claimed p \<noteq> None) ?ps)"
    by (simp add: conj_commute)
  with dw have dL: "distinct ?L"
    by (simp add: winners_def List.map_filter_def distinct_map_filter del: filter_filter)
  have sub: "set ?L \<subseteq> transaction_id ` set (pending sid txs)"
  proof
    fix t assume "t \<in> set ?L"
    then obtain p where p: "p \<in> set ?ps" "p_store p = sid" "claimed p = Some t" by auto
    from ok [OF p(1)] p(3) obtain r where "r \<in> set txs" "played r = 0" "transaction_id r = t"
      "tx_store_id r = p_store p"
      unfolding poller_ok_def by blast
    with p(2) show "t \<in> transaction_id ` set (pending sid txs)"
      by (auto simp: pending_def)
  qed
  have "length (filter ?P ?ps) = length ?L" by simp
  also have "\<dots> = card (set ?L)" by (rule distinct_card [OF dL, symmetric])
  also have "\<dots> \<le> card (transaction_id ` set (pending sid txs))"
    by (rule card_mono [OF _ sub]) simp
  also have "\<dots> \<le> card (set (pending sid txs))" by (rule card_image_le) simp
  also have "\<dots> \<le> length (pending sid txs)" by (rule card_length)
  finally have cnt: "length (filter ?P ?ps) \<le> length (pending sid txs)" .
  have st: "map p_store ?ps = sids"
    by (simp add: run_schedule_stores comp_def start_poll_def)
  from dw cnt st show ?thesis by simp
qed

theorem at_most_once_witness:
  "distinct (map row_id
      [\<lparr>row_id = 1, transaction_id = ''A'', tx_store_id = ''S1'', amount = 5, played = 0\<rparr>,
       \<lparr>row_id = 2, transaction_id = ''B'', tx_store_id = ''S1'', amount = 6, played = 0\<rparr>])
   \<and> distinct (map transaction_id
      [\<lparr>row_id = 1, transaction_id = ''A'', tx_store_id = ''S1'', amount = 5, played = 0\<rparr>,
       \<lparr>row_id = 2, transaction_id = ''B'', tx_store_id = ''S1'', amount = 6, played = 0\<rparr>])
   \<and> winners (snd (run_schedule [0, 1, 2, 0, 1, 2, 1, 2, 2, 2, 1, 1]
      ([\<lparr>row_id = 1, transaction_id = ''A'', tx_store_id = ''S1'', amount = 5, played = 0\<rparr>,
        \<lparr>row_id = 2, transaction_id = ''B'', tx_store_id = ''S1'', amount = 6, played = 0\<rparr>],
       map start_poll [''S1'', ''S1'', ''S1''])))
     = [''A'', ''B'']
   \<and> length (filter (\<lambda>p. p_store p = ''S1'' \<and> claimed p \<noteq> None)
       (snd (run_schedule [0, 1, 2, 0, 1, 2, 1, 2, 2, 2, 1, 1]
      ([\<lparr>row_id = 1, transaction_id = ''A'', tx_store_id = ''S1'', amount = 5, played = 0\<rparr>,
        \<lparr>row_id = 2, transaction_id = ''B'', tx_store_id = ''S1'', amount = 6, played = 0\<rparr>],
       map start_poll [''S1'', ''S1'', ''S1'']))))
     \<le> length (pending ''S1''
       [\<lparr>row_id = 1, transaction_id = ''A'', tx_store_id = ''S1'', amount = 5, played = 0\<rparr>,
        \<lparr>row_id = 2, transaction_id = ''B'', tx_store_id = ''S1'', amount = 6, played = 0\<rparr>])"
proof -
  let ?t = "[\<lparr>row_id = 1, transaction_id = ''A'', tx_store_id = ''S1'', amount = 5, played = 0\<rparr>,
        \<lparr>row_id = 2, transaction_id = ''B'', tx_store_id = ''S1'', amount = 6, played = 0\<rparr>]"
  have d1: "distinct (map row_id ?t)" by simp
  have d2: "distinct (map transaction_id ?t)" by simp
  have w: "winners (snd (run_schedule [0, 1, 2, 0, 1, 2, 1, 2, 2, 2, 1, 1] (?t, map start_poll [''S1'', ''S1'', ''S1'']))) = [''A'', ''B'']"
    by code_simp
  from at_most_once [OF d1 d2, of "[0, 1, 2, 0, 1, 2, 1, 2, 2, 2, 1, 1]" "[''S1'', ''S1'', ''S1'']" "''S1''"] d1 d2 w
  show ?thesis by blast
qed

subsection \<open>Gating of the poll\<close>

lemma getHeartbeatCols_tables:
  "transactions (snd (getHeartbeatCols env st)) = transactions st"
  "stores (snd (getHeartbeatCols env st)) = stores st"
  "device_heartbeat (snd (getHeartbeatCols env st)) = device_heartbeat st"
  "console (snd (getHeartbeatCols env st)) = console st"
  "hb_columns (snd (getHeartbeatCols env st)) = hb_columns st"
  by (simp_all add: getHeartbeatCols_def)

lemma upsert_heartbeat_tables:
  "transactions (upsert_heartbeat env k c sid token ip v st) = transactions st"
  "stores (upsert_heartbeat env k c sid token ip v st) = stores st"
  by (simp_all add: upsert_heartbeat_def split: option.splits)

lemma record_heartbeat_tables:
  "transactions (record_heartbeat env req sid token st) = transactions st"
  "stores (record_heartbeat env req sid token st) = stores st"
  by (simp_all add: record_heartbeat_def upsert_heartbeat_tables getHeartbeatCols_tables split: option.splits)

lemma next_transaction_admitted:
  assumes "poll_admitted req st"
  shows "\<exists>token. getDeviceToken req = Some token \<and> next_transaction env req st =
     claim (poll_store req) (record_heartbeat env req (poll_store req) token st)"
  using assms
  by (auto simp: poll_admitted_def next_transaction_def poll_store_def Let_def
      split: option.splits)

text \<open>
  C8 (as amended). For a poll that names a store: without a non-blank
  \<open>x-device-token\<close> the answer is 401 before the store is looked up; with one, a missing
  or disabled store gives 403 whatever the token is, and an enabled store whose trimmed
  \<open>device_token\<close> differs from the trimmed header gives 401. In each case the state is
  unchanged: no heartbeat is recorded and no claim is attempted.
\<close>

theorem poll_gating:
  assumes "poll_store req \<noteq> []"
  shows "(getDeviceToken req = None \<longrightarrow>
            next_transaction env req st = (text_response ''x-device-token required'' 401, st))
     \<and> (\<forall>token. getDeviceToken req = Some token \<longrightarrow>
          (find_store (poll_store req) st = None \<longrightarrow>
             next_transaction env req st = (text_response ''Invalid or disabled store'' 403, st))
        \<and> (\<forall>store. find_store (poll_store req) st = Some store \<longrightarrow>
             (enabled store \<noteq> 1 \<longrightarrow>
                next_transaction env req st = (text_response ''Invalid or disabled store'' 403, st))
           \<and> (enabled store = 1 \<and> trim (device_token store) \<noteq> token \<longrightarrow>
                next_transaction env req st = (text_response ''Unauthorized'' 401, st))))"
  using assms by (simp add: next_transaction_def poll_store_def Let_def)

subsection \<open>First in, first out\<close>

lemma update_one_row:
  assumes d: "distinct (map row_id txs)" and r: "r \<in> set txs" "played r = 0"
  shows "snd (update_played (row_id r) txs) = 1"
proof -
  have dt: "distinct txs" using d by (simp add: distinct_map)
  have "{x. row_id x = row_id r \<and> played x = 0} \<inter> set txs = {r}"
    using d r by (auto dest: distinct_map_eq)
  with distinct_length_filter [OF dt, of "\<lambda>x. row_id x = row_id r \<and> played x = 0"]
  show ?thesis by (simp add: update_played_def)
qed

lemma claim_loop_empty:
  "select_next sid txs = None \<Longrightarrow> claim_loop 0 sid txs = (json JsonNotAvailable, txs)"
  by (subst claim_loop.simps) simp

lemma claim_loop_first:
  assumes "distinct (map row_id txs)" "select_next sid txs = Some r"
  shows "claim_loop 0 sid txs = (available sid r, fst (update_played (row_id r) txs))"
proof -
  from select_next_Some [OF assms(2)] assms(1)
  have "snd (update_played (row_id r) txs) = 1" by (simp add: update_one_row)
  with assms(2) show ?thesis by (subst claim_loop.simps) (simp add: available_def)
qed

lemma update_played_ids: "map row_id (fst (update_played x txs)) = map row_id txs"
  by (simp add: update_played_def comp_def)

lemma pending_update:
  "pending sid (fst (update_played x txs)) = filter (\<lambda>r. row_id r \<noteq> x) (pending sid txs)"
  by (induction txs) (simp_all add: pending_def update_played_def)

lemma queue_after_claim:
  assumes d: "distinct (map row_id (transactions st))"
    and q: "queue sid st = r # rest"
  shows "queue sid (st\<lparr>transactions := fst (update_played (row_id r) (transactions st))\<rparr>) = rest"
proof -
  let ?txs = "transactions st"
  have dq: "distinct (r # rest)"
    using d q [symmetric] by (simp add: queue_def pending_def distinct_map del: distinct.simps)
  have sub: "set (r # rest) \<subseteq> set ?txs"
    using q [symmetric] by (auto simp: queue_def pending_def simp del: set_simps)
  have "row_id x \<noteq> row_id r" if "x \<in> set rest" for x
  proof
    assume "row_id x = row_id r"
    with d sub that have "x = r" by (auto dest: distinct_map_eq)
    with dq that show False by simp
  qed
  then have "filter (\<lambda>x. row_id x \<noteq> row_id r) (r # rest) = rest" by (simp add: filter_id_conv)
  then show ?thesis
    using q by (simp add: queue_def pending_update filter_sort [symmetric])
qed

lemma queue_head_least:
  assumes "queue sid st = r # rest"
  shows "r \<in> set (pending sid (transactions st))
     \<and> (\<forall>x \<in> set (pending sid (transactions st)). row_id r \<le> row_id x)"
proof -
  have s: "sorted (map row_id (queue sid st))" by (simp add: queue_def sorted_sort_key)
  have e: "set (queue sid st) = set (pending sid (transactions st))" by (simp add: queue_def)
  from s assms have "\<forall>x \<in> set (r # rest). row_id r \<le> row_id x" by auto
  with e assms show ?thesis by (metis list.set_intros(1))
qed

lemma queue_cong: "transactions st' = transactions st \<Longrightarrow> queue sid st' = queue sid st"
  by (simp add: queue_def)

lemma poll_admitted_cong:
  assumes "stores st' = stores st"
  shows "poll_admitted req st' = poll_admitted req st"
proof -
  have "find_store sid st' = find_store sid st" for sid
    using assms by (simp add: find_store_def)
  then show ?thesis by (simp add: poll_admitted_def cong: option.case_cong)
qed

lemma claim_step:
  assumes d: "distinct (map row_id (transactions st))"
  shows "(queue sid st = [] \<longrightarrow>
            fst (claim sid st) = json JsonNotAvailable
            \<and> transactions (snd (claim sid st)) = transactions st)
     \<and> (\<forall>r rest. queue sid st = r # rest \<longrightarrow>
            fst (claim sid st) = available sid r
            \<and> transactions (snd (claim sid st)) = fst (update_played (row_id r) (transactions st))
            \<and> queue sid (snd (claim sid st)) = rest)"
proof (intro conjI impI allI)
  assume "queue sid st = []"
  then have n: "select_next sid (transactions st) = None"
    by (simp add: select_next_def queue_def)
  from claim_loop_empty [OF n] show "fst (claim sid st) = json JsonNotAvailable"
    and "transactions (snd (claim sid st)) = transactions st"
    by (simp_all add: claim_def)
next
  fix r rest assume q: "queue sid st = r # rest"
  then have n: "select_next sid (transactions st) = Some r"
    by (simp add: select_next_def queue_def)
  from claim_loop_first [OF d n] show a: "fst (claim sid st) = available sid r"
    and b: "transactions (snd (claim sid st)) = fst (update_played (row_id r) (transactions st))"
    by (simp_all add: claim_def)
  have "queue sid (snd (claim sid st))
      = queue sid (st\<lparr>transactions := fst (update_played (row_id r) (transactions st))\<rparr>)"
    using b by (simp add: queue_cong)
  with queue_after_claim [OF d q] show "queue sid (snd (claim sid st)) = rest" by simp
qed

lemma claim_keeps:
  "stores (snd (claim sid st)) = stores st"
  "map row_id (transactions (snd (claim sid st))) = map row_id (transactions st)
     \<or> \<not> distinct (map row_id (transactions st))"
proof -
  show "stores (snd (claim sid st)) = stores st" by (simp add: claim_def)
  show "map row_id (transactions (snd (claim sid st))) = map row_id (transactions st)
     \<or> \<not> distinct (map row_id (transactions st))"
  proof (cases "distinct (map row_id (transactions st))")
    case True
    from claim_step [OF True, of sid] show ?thesis
      by (cases "queue sid st") (simp_all add: update_played_ids)
  next
    case False
    then show ?thesis by simp
  qed
qed

lemma polls_fifo:
  assumes "poll_admitted req st" "distinct (map row_id (transactions st))"
  shows "polls envs req st =
     map (available (poll_store req)) (take (length envs) (queue (poll_store req) st))
     @ replicate (length envs - length (queue (poll_store req) st)) (json JsonNotAvailable)"
  using assms
proof (induction envs arbitrary: st)
  case Nil
  then show ?case by simp
next
  case (Cons e es)
  let ?sid = "poll_store req"
  from next_transaction_admitted [OF Cons.prems(1), of e] obtain token where
    nt: "next_transaction e req st = claim ?sid (record_heartbeat e req ?sid token st)" by blast
  let ?h = "record_heartbeat e req ?sid token st"
  let ?st' = "snd (next_transaction e req st)"
  have th: "transactions ?h = transactions st" by (simp add: record_heartbeat_tables)
  have dh: "distinct (map row_id (transactions ?h))" using Cons.prems(2) th by simp
  have qh: "queue ?sid ?h = queue ?sid st" using th by (rule queue_cong)
  have "stores ?st' = stores st"
    using nt by (simp add: claim_keeps(1) record_heartbeat_tables)
  from poll_admitted_cong [OF this] Cons.prems(1) have adm: "poll_admitted req ?st'" by simp
  have d': "distinct (map row_id (transactions ?st'))"
    using claim_keeps(2) [of ?sid ?h] dh nt th by auto
  note IH = Cons.IH [OF adm d']
  show ?case
  proof (cases "queue ?sid st")
    case Nil
    with claim_step [OF dh, of ?sid] qh nt
    have r: "fst (next_transaction e req st) = json JsonNotAvailable"
      and t: "transactions ?st' = transactions st" by (simp_all add: th)
    from t have "queue ?sid ?st' = queue ?sid st" by (rule queue_cong)
    with IH r Nil show ?thesis by (simp add: replicate_append_same)
  next
    case (Cons r rest)
    with claim_step [OF dh, of ?sid] qh nt
    have a: "fst (next_transaction e req st) = available ?sid r"
      and q: "queue ?sid ?st' = rest" by simp_all
    with IH Cons show ?thesis by simp
  qed
qed

text \<open>
  C2. For an admitted poll on a table with unique ids: with no pending transaction of
  the store the answer is \<open>{available: false}\<close> with status 200; otherwise the answer
  hands out the pending transaction of the store with the least id; and polls made one
  after the other hand out the pending transactions in ascending order of id, then
  answer \<open>{available: false}\<close>.
\<close>

theorem fifo_within_store:
  assumes "poll_admitted req st" "distinct (map row_id (transactions st))"
  shows "(pending (poll_store req) (transactions st) = [] \<longrightarrow>
            fst (next_transaction env req st) = json JsonNotAvailable
            \<and> status (fst (next_transaction env req st)) = 200)
     \<and> (\<forall>r rest. queue (poll_store req) st = r # rest \<longrightarrow>
            fst (next_transaction env req st) = available (poll_store req) r
            \<and> r \<in> set (pending (poll_store req) (transactions st))
            \<and> (\<forall>x \<in> set (pending (poll_store req) (transactions st)). row_id r \<le> row_id x))
     \<and> polls envs req st =
          map (available (poll_store req)) (take (length envs) (queue (poll_store req) st))
          @ replicate (length envs - length (queue (poll_store req) st)) (json JsonNotAvailable)"
proof -
  let ?sid = "poll_store req"
  from next_transaction_admitted [OF assms(1), of env] obtain token where
    nt: "next_transaction env req st = claim ?sid (record_heartbeat env req ?sid token st)" by blast
  let ?h = "record_heartbeat env req ?sid token st"
  have th: "transactions ?h = transactions st" by (simp add: record_heartbeat_tables)
  have dh: "distinct (map row_id (transactions ?h))" using assms(2) th by simp
  have qh: "queue ?sid ?h = queue ?sid st" using th by (rule queue_cong)
  have a: "fst (next_transaction env req st) = json JsonNotAvailable
            \<and> status (fst (next_transaction env req st)) = 200"
    if "pending ?sid (transactions st) = []"
  proof -
    from that have "queue ?sid st = []" by (simp add: queue_def)
    with claim_step [OF dh, of ?sid] qh nt show ?thesis by (simp add: json_def)
  qed
  have b: "fst (next_transaction env req st) = available ?sid r
            \<and> r \<in> set (pending ?sid (transactions st))
            \<and> (\<forall>x \<in> set (pending ?sid (transactions st)). row_id r \<le> row_id x)"
    if "queue ?sid st = r # rest" for r rest
    using claim_step [OF dh, of ?sid] qh nt that queue_head_least [OF that] by simp
  from a b polls_fifo [OF assms, of envs] show ?thesis by blast
qed

subsection \<open>Heartbeat failures\<close>

text \<open>
  C7. For an admitted poll the answer and the transactions table are those of the claim
  loop alone, so they are the same under every behaviour \<open>env'\<close> of the heartbeat
  statements; a raised heartbeat statement leaves one line on the console and the
  heartbeat table as it was; with no key column resolved nothing is written or logged.
\<close>

theorem heartbeat_contained:
  assumes "poll_admitted req st"
  shows "fst (next_transaction env req st) = fst (claim (poll_store req) st)
     \<and> transactions (snd (next_transaction env req st))
         = transactions (snd (claim (poll_store req) st))
     \<and> fst (next_transaction env req st) = fst (next_transaction env' req st)
     \<and> transactions (snd (next_transaction env req st))
         = transactions (snd (next_transaction env' req st))
     \<and> (pickHeartbeatKey (fst (getHeartbeatCols env st)) \<noteq> None \<and> heartbeat_raises env \<longrightarrow>
          console (snd (next_transaction env req st)) = console st @ [''Heartbeat error:'']
          \<and> device_heartbeat (snd (next_transaction env req st)) = device_heartbeat st)
     \<and> (pickHeartbeatKey (fst (getHeartbeatCols env st)) = None \<longrightarrow>
          console (snd (next_transaction env req st)) = console st
          \<and> device_heartbeat (snd (next_transaction env req st)) = device_heartbeat st)"
proof -
  let ?sid = "poll_store req"
  from next_transaction_admitted [OF assms] obtain token where
    nt: "\<And>e. next_transaction e req st = claim ?sid (record_heartbeat e req ?sid token st)"
    by (metis option.inject)
  have c: "fst (claim ?sid (record_heartbeat e req ?sid token st)) = fst (claim ?sid st)
     \<and> transactions (snd (claim ?sid (record_heartbeat e req ?sid token st)))
         = transactions (snd (claim ?sid st))" for e
    by (simp add: claim_def record_heartbeat_tables)
  have r: "console (record_heartbeat env req ?sid token st) = console st @ [''Heartbeat error:'']
      \<and> device_heartbeat (record_heartbeat env req ?sid token st) = device_heartbeat st"
    if "pickHeartbeatKey (fst (getHeartbeatCols env st)) \<noteq> None" "heartbeat_raises env"
    using that
    by (auto simp: record_heartbeat_def upsert_heartbeat_def getHeartbeatCols_tables)
  have k: "console (record_heartbeat env req ?sid token st) = console st
      \<and> device_heartbeat (record_heartbeat env req ?sid token st) = device_heartbeat st"
    if "pickHeartbeatKey (fst (getHeartbeatCols env st)) = None"
    using that by (simp add: record_heartbeat_def getHeartbeatCols_tables)
  have s: "console (snd (claim ?sid h)) = console h
      \<and> device_heartbeat (snd (claim ?sid h)) = device_heartbeat h" for h
    by (simp add: claim_def)
  from c [of env] c [of env'] r k s show ?thesis
    by (simp add: nt)
qed

subsection \<open>The played flag\<close>

lemma update_played_pending:
  assumes "r \<in> set (fst (update_played x txs))" "played r = 0"
  shows "r \<in> set txs"
proof -
  from update_played_row [OF assms(1)]
  consider "r \<in> set txs" | r0 where "r = r0\<lparr>played := 1\<rparr>" by blast
  then show ?thesis
  proof cases
    case 1
    then show ?thesis .
  next
    case 2
    with assms(2) show ?thesis by simp
  qed
qed

lemma spent_update: "spent tid txs \<Longrightarrow> spent tid (fst (update_played x txs))"
  unfolding spent_def
proof (intro ballI impI)
  fix r assume s: "\<forall>r \<in> set txs. transaction_id r = tid \<longrightarrow> played r \<noteq> 0"
    and r: "r \<in> set (fst (update_played x txs))" and t: "transaction_id r = tid"
  show "played r \<noteq> 0"
  proof
    assume "played r = 0"
    with update_played_pending [OF r] s t show False by blast
  qed
qed

lemma claim_loop_effect:
  "(\<exists>ids. snd (claim_loop i sid txs) = mark_played ids txs)
   \<and> (\<forall>t a s. fst (claim_loop i sid txs) = json (JsonAvailable t a s) \<longrightarrow>
         (\<exists>r \<in> set txs. played r = 0 \<and> transaction_id r = t))
   \<and> (fst (claim_loop i sid txs) = json JsonNotAvailable
       \<or> (\<exists>t a. fst (claim_loop i sid txs) = json (JsonAvailable t a sid)))"
proof (induction i sid txs rule: claim_loop.induct)
  case (1 i sid txs)
  show ?case
  proof (cases "i < 3")
    case False
    have m0: "mark_played [] txs = txs" by (simp add: mark_played_def)
    have eq: "claim_loop i sid txs = (json JsonNotAvailable, txs)"
      using False by (subst claim_loop.simps) simp
    show ?thesis unfolding eq using m0 by (auto simp: json_def intro: exI [of _ "[]"])
  next
    case i: True
    show ?thesis
    proof (cases "select_next sid txs")
      case None
      have m0: "mark_played [] txs = txs" by (simp add: mark_played_def)
      have eq: "claim_loop i sid txs = (json JsonNotAvailable, txs)"
        using i None by (subst claim_loop.simps) simp
      show ?thesis unfolding eq using m0 by (auto simp: json_def intro: exI [of _ "[]"])
    next
      case (Some row)
      let ?txs' = "fst (update_played (row_id row) txs)"
      have m1: "mark_played [row_id row] txs = ?txs'" by (simp add: mark_played_def)
      show ?thesis
      proof (cases "snd (update_played (row_id row) txs) = 1")
        case True
        from select_next_Some [OF Some] have row: "row \<in> set txs" "played row = 0" by simp_all
        have eq: "claim_loop i sid txs
            = (json (JsonAvailable (transaction_id row) (amount row) sid), ?txs')"
          using i Some True by (subst claim_loop.simps) simp
        show ?thesis unfolding eq using m1 row
          by (auto simp: json_def intro: exI [of _ "[row_id row]"])
      next
        case False
        have eq: "claim_loop i sid txs = claim_loop (i + 1) sid ?txs'"
          using i Some False by (subst claim_loop.simps) simp
        from "1.IH" [OF i Some False]
        have IH: "(\<exists>ids. snd (claim_loop (i + 1) sid ?txs') = mark_played ids ?txs')
           \<and> (\<forall>t a s. fst (claim_loop (i + 1) sid ?txs') = json (JsonAvailable t a s) \<longrightarrow>
                 (\<exists>r \<in> set ?txs'. played r = 0 \<and> transaction_id r = t))
           \<and> (fst (claim_loop (i + 1) sid ?txs') = json JsonNotAvailable
               \<or> (\<exists>t a. fst (claim_loop (i + 1) sid ?txs') = json (JsonAvailable t a sid)))" .
        then obtain ids where "snd (claim_loop (i + 1) sid ?txs') = mark_played ids ?txs'" by blast
        then have "snd (claim_loop (i + 1) sid ?txs') = mark_played (row_id row # ids) txs"
          by (simp add: mark_played_def)
        then have a: "\<exists>ids. snd (claim_loop (i + 1) sid ?txs') = mark_played ids txs" by blast
        have b: "\<exists>r \<in> set txs. played r = 0 \<and> transaction_id r = t"
          if "fst (claim_loop (i + 1) sid ?txs') = json (JsonAvailable t a s)" for t a s
        proof -
          from IH that obtain r where "r \<in> set ?txs'" "played r = 0" "transaction_id r = t"
            by blast
          with update_played_pending show ?thesis by blast
        qed
        from a b IH show ?thesis unfolding eq by blast
      qed
    qed
  qed
qed

lemma tx_effect_same:
  "transactions (snd res) = T \<Longrightarrow> returned_id (fst res) = None \<Longrightarrow> tx_effect q env T res"
  unfolding tx_effect_def by (intro disjI1 exI [of _ "[]"]) (simp add: mark_played_def)

lemma returned_id_simps [simp]:
  "returned_id (text_response msg c) = None"
  "returned_id (json (JsonStore a b d)) = None"
  "returned_id (json (JsonEnabled a v)) = None"
  "returned_id (json (JsonDeleted a)) = None"
  "returned_id (json (JsonToken a b)) = None"
  "returned_id (json (JsonCleared a n)) = None"
  "returned_id (json (JsonCreated a)) = None"
  "returned_id (json JsonRows) = None"
  "returned_id (json JsonHealth) = None"
  "returned_id (json JsonNotAvailable) = None"
  "returned_id (json (JsonAvailable t a' s)) = Some t"
  by (simp_all add: returned_id_def text_response_def json_def)

lemma effect_admin_upsert_store: "tx_effect q env (transactions st) (admin_upsert_store env req st)"
  by (rule tx_effect_same)
    (simp_all add: admin_upsert_store_def requireAdmin_def Let_def split: option.splits)

lemma effect_admin_set_enabled: "tx_effect q env (transactions st) (admin_set_enabled v env req st)"
  by (rule tx_effect_same)
    (simp_all add: admin_set_enabled_def requireAdmin_def Let_def split: option.splits)

lemma effect_admin_delete_store: "tx_effect q env (transactions st) (admin_delete_store env req st)"
  by (rule tx_effect_same)
    (simp_all add: admin_delete_store_def requireAdmin_def Let_def split: option.splits)

lemma effect_admin_regen_token: "tx_effect q env (transactions st) (admin_regen_token env req st)"
  by (rule tx_effect_same)
    (simp_all add: admin_regen_token_def requireAdmin_def Let_def split: option.splits)

lemma effect_admin_list: "tx_effect q env (transactions st) (admin_list env req st)"
  by (rule tx_effect_same)
    (simp_all add: admin_list_def requireAdmin_def Let_def split: option.splits)

lemma effect_admin_list_devices: "tx_effect q env (transactions st) (admin_list_devices env req st)"
  by (rule tx_effect_same)
    (simp_all add: admin_list_devices_def requireAdmin_def Let_def getHeartbeatCols_tables
      split: option.splits)

lemma effect_admin_clear: "tx_effect q env (transactions st) (admin_clear_transactions env req st)"
proof (cases "transactions (snd (admin_clear_transactions env req st)) = transactions st")
  case True
  moreover have "returned_id (fst (admin_clear_transactions env req st)) = None"
    by (simp add: admin_clear_transactions_def requireAdmin_def Let_def split: option.splits)
  ultimately show ?thesis by (rule tx_effect_same)
next
  case False
  then have "returned_id (fst (admin_clear_transactions env req st)) = None
    \<and> (\<exists>sid. transactions (snd (admin_clear_transactions env req st))
          = filter (\<lambda>r. tx_store_id r \<noteq> sid) (transactions st))"
    by (auto simp: admin_clear_transactions_def requireAdmin_def Let_def split: option.splits if_splits)
  then show ?thesis unfolding tx_effect_def by blast
qed

lemma effect_qris: "tx_effect True env (transactions st) (qris env req st)"
proof (cases "transactions (snd (qris env req st)) = transactions st")
  case True
  moreover have "returned_id (fst (qris env req st)) = None"
    by (simp add: qris_def requireApi_def Let_def split: option.splits number.splits)
  ultimately show ?thesis by (rule tx_effect_same)
next
  case False
  then have "returned_id (fst (qris env req st)) = None
    \<and> (\<exists>sid amt. transactions (snd (qris env req st))
          = insert_transaction (makeTransactionId env) sid amt (transactions st))"
    by (auto simp: qris_def requireApi_def Let_def split: option.splits number.splits if_splits)
  then show ?thesis unfolding tx_effect_def by blast
qed

lemma effect_claim: "tx_effect q env (transactions st) (claim sid st)"
proof -
  from claim_loop_effect [of 0 sid "transactions st"]
  obtain ids where i: "snd (claim_loop 0 sid (transactions st)) = mark_played ids (transactions st)"
    and t: "\<And>t a s. fst (claim_loop 0 sid (transactions st)) = json (JsonAvailable t a s) \<Longrightarrow>
         \<exists>r \<in> set (transactions st). played r = 0 \<and> transaction_id r = t"
    and c: "fst (claim_loop 0 sid (transactions st)) = json JsonNotAvailable
       \<or> (\<exists>t a. fst (claim_loop 0 sid (transactions st)) = json (JsonAvailable t a sid))"
    by blast
  have "\<exists>r \<in> set (transactions st). played r = 0 \<and> transaction_id r = t"
    if "returned_id (fst (claim sid st)) = Some t" for t
    using c that t by (auto simp: claim_def)
  with i show ?thesis unfolding tx_effect_def by (auto simp: claim_def)
qed

lemma effect_next_transaction: "tx_effect q env (transactions st) (next_transaction env req st)"
proof (cases "poll_admitted req st")
  case True
  from next_transaction_admitted [OF True, of env] obtain token where
    nt: "next_transaction env req st
      = claim (poll_store req) (record_heartbeat env req (poll_store req) token st)" by blast
  from effect_claim [of q env "record_heartbeat env req (poll_store req) token st" "poll_store req"]
  show ?thesis by (simp add: nt record_heartbeat_tables)
next
  case False
  then have "next_transaction env req st = (fst (next_transaction env req st), st)
     \<and> returned_id (fst (next_transaction env req st)) = None"
    by (auto simp: next_transaction_def poll_admitted_def poll_store_def Let_def split: option.splits)
  then show ?thesis by (metis tx_effect_same snd_conv)
qed

lemma tx_effect_if:
  "(c \<Longrightarrow> tx_effect q env T a) \<Longrightarrow> tx_effect q env T b \<Longrightarrow>
     tx_effect q env T (if c then a else b)"
  by simp

lemma effect_fetch: "tx_effect (is_qris req) env (transactions st) (fetch env req st)"
  unfolding fetch_def Let_def
  by (intro tx_effect_if)
    (simp_all add: is_qris_def effect_admin_upsert_store effect_admin_set_enabled
      effect_admin_delete_store effect_admin_regen_token effect_admin_list
      effect_admin_list_devices effect_admin_clear effect_qris effect_next_transaction
      tx_effect_same returned_id_def json_def text_response_def)

lemma spent_mark_played: "spent tid txs \<Longrightarrow> spent tid (mark_played ids txs)"
  unfolding mark_played_def
  by (induction ids arbitrary: txs) (simp_all add: spent_update)

lemma spent_fetch:
  assumes s: "spent tid (transactions st)"
    and f: "is_qris req \<longrightarrow> makeTransactionId env \<noteq> tid"
  shows "spent tid (transactions (snd (fetch env req st)))
     \<and> returned_id (fst (fetch env req st)) \<noteq> Some tid"
proof -
  let ?res = "fetch env req st"
  from effect_fetch [of req env st]
  consider (claim) ids where "transactions (snd ?res) = mark_played ids (transactions st)"
      "\<And>t. returned_id (fst ?res) = Some t \<Longrightarrow>
         \<exists>r \<in> set (transactions st). played r = 0 \<and> transaction_id r = t"
    | (insert) sid amt where "is_qris req" "returned_id (fst ?res) = None"
      "transactions (snd ?res)
         = insert_transaction (makeTransactionId env) sid amt (transactions st)"
    | (delete) sid where "returned_id (fst ?res) = None"
      "transactions (snd ?res) = filter (\<lambda>r. tx_store_id r \<noteq> sid) (transactions st)"
    unfolding tx_effect_def by blast
  then show ?thesis
  proof cases
    case claim
    have "returned_id (fst ?res) \<noteq> Some tid"
    proof
      assume "returned_id (fst ?res) = Some tid"
      from claim(2) [OF this] s show False unfolding spent_def by blast
    qed
    with claim(1) s show ?thesis by (simp add: spent_mark_played)
  next
    case insert
    with s f show ?thesis by (auto simp: spent_def insert_transaction_def)
  next
    case delete
    with s show ?thesis by (auto simp: spent_def)
  qed
qed

lemma spent_serve:
  assumes "spent tid (transactions st)"
    and "list_all (\<lambda>c. is_qris (snd c) \<longrightarrow> makeTransactionId (fst c) \<noteq> tid) calls"
  shows "tid \<notin> set (List.map_filter returned_id (fst (serve calls st)))"
  using assms
proof (induction calls arbitrary: st)
  case Nil
  then show ?case by simp
next
  case (Cons c calls)
  from Cons.prems(2) have f: "is_qris (snd c) \<longrightarrow> makeTransactionId (fst c) \<noteq> tid"
    and r: "list_all (\<lambda>c. is_qris (snd c) \<longrightarrow> makeTransactionId (fst c) \<noteq> tid) calls"
    by simp_all
  from spent_fetch [OF Cons.prems(1) f]
  have s': "spent tid (transactions (snd (fetch (fst c) (snd c) st)))"
    and n: "returned_id (fst (fetch (fst c) (snd c) st)) \<noteq> Some tid" by simp_all
  from Cons.IH [OF s' r] n show ?case by (auto split: option.splits)
qed

text \<open>
  C3. Whatever the request, the transactions table afterwards is the table before with
  the conditional UPDATE applied to some ids (none, for most routes), or with one new
  pending row appended, or without the rows of one store. And once no row carrying a
  transaction id is pending, no answer of any later request hands that id out, as long
  as no later \<open>/qris\<close> call generates the same id again.
\<close>

theorem played_is_terminal:
  "((\<exists>ids. transactions (snd (fetch env req st)) = mark_played ids (transactions st))
      \<or> (\<exists>row. played row = 0
            \<and> transactions (snd (fetch env req st)) = transactions st @ [row])
      \<or> (\<exists>sid. transactions (snd (fetch env req st))
            = filter (\<lambda>r. tx_store_id r \<noteq> sid) (transactions st)))
   \<and> (spent tid (transactions st)
        \<and> list_all (\<lambda>c. is_qris (snd c) \<longrightarrow> makeTransactionId (fst c) \<noteq> tid) calls
       \<longrightarrow> tid \<notin> set (List.map_filter returned_id (fst (serve calls st))))"
proof -
  from effect_fetch [of req env st]
  have "(\<exists>ids. transactions (snd (fetch env req st)) = mark_played ids (transactions st))
      \<or> (\<exists>row. played row = 0
            \<and> transactions (snd (fetch env req st)) = transactions st @ [row])
      \<or> (\<exists>sid. transactions (snd (fetch env req st))
            = filter (\<lambda>r. tx_store_id r \<noteq> sid) (transactions st))"
    unfolding tx_effect_def insert_transaction_def
    by (metis transaction.select_convs(5))
  with spent_serve [of tid st calls] show ?thesis by blast
qed

subsection \<open>Transaction creation\<close>

lemma next_row_id_above: "r \<in> set txs \<Longrightarrow> row_id r < next_row_id txs"
proof -
  assume r: "r \<in> set txs"
  have "fold max (map row_id txs) 0 = Max (set (0 # map row_id txs))"
    by (rule Max.set_eq_fold [symmetric])
  moreover have "row_id r \<le> Max (set (0 # map row_id txs))"
    using r by (intro Max_ge) simp_all
  ultimately show ?thesis by (simp add: next_row_id_def less_Suc_eq_le)
qed

lemma qris_valid_amount:
  assumes "requireApi req env = None" "json_body req = Some b"
    and "trim (or_empty (b_store_id b)) = sid" "sid \<noteq> []"
    and "b_amount b = Finite a" "0 < a"
  shows "qris env req st =
     (case find_store sid st of
        None \<Rightarrow> (text_response ''Store disabled or not registered'' 403, st)
      | Some store \<Rightarrow>
          if enabled store \<noteq> 1
          then (text_response ''Store disabled or not registered'' 403, st)
          else (json (JsonCreated (makeTransactionId env)),
                st\<lparr>transactions :=
                     insert_transaction (makeTransactionId env) sid \<lfloor>a\<rfloor> (transactions st)\<rparr>))"
  using assms by (simp add: qris_def)

text \<open>
  C4 (as amended). For a \<open>POST /qris\<close> with a valid API key, a JSON body and a non-blank
  store id: an amount that is not a finite positive number gives 400, whatever the
  state of the store; otherwise a missing or disabled store gives 403; otherwise, for
  an amount of at least 1, exactly one row is appended, pending, with the floor of the
  amount (a positive integer), an id above every id in the table and the generated
  transaction id, which is returned; nothing else in the state changes.
\<close>

theorem qris_creates:
  assumes "requireApi req env = None" "json_body req = Some b"
    and "trim (or_empty (b_store_id b)) = sid" "sid \<noteq> []"
  shows "((\<forall>a. b_amount b = Finite a \<longrightarrow> a \<le> 0) \<longrightarrow>
            qris env req st = (text_response ''amount must be positive number'' 400, st))
     \<and> (\<forall>a. b_amount b = Finite a \<and> 0 < a \<longrightarrow>
          ((find_store sid st = None \<or> (\<exists>s. find_store sid st = Some s \<and> enabled s \<noteq> 1)) \<longrightarrow>
             qris env req st = (text_response ''Store disabled or not registered'' 403, st))
        \<and> ((\<exists>s. find_store sid st = Some s \<and> enabled s = 1) \<and> 1 \<le> a \<longrightarrow>
             qris env req st =
               (json (JsonCreated (makeTransactionId env)),
                st\<lparr>transactions := transactions st @
                   [\<lparr>row_id = next_row_id (transactions st),
                     transaction_id = makeTransactionId env, tx_store_id = sid,
                     amount = \<lfloor>a\<rfloor>, played = 0\<rparr>]\<rparr>)
             \<and> 1 \<le> \<lfloor>a\<rfloor>
             \<and> (\<forall>r \<in> set (transactions st). row_id r < next_row_id (transactions st))))"
proof -
  have bad: "qris env req st = (text_response ''amount must be positive number'' 400, st)"
    if "\<forall>a. b_amount b = Finite a \<longrightarrow> a \<le> 0"
    using assms that by (cases "b_amount b") (simp_all add: qris_def)
  have closed: "qris env req st = (text_response ''Store disabled or not registered'' 403, st)"
    if a: "b_amount b = Finite a" "0 < a"
      and s: "find_store sid st = None \<or> (\<exists>s. find_store sid st = Some s \<and> enabled s \<noteq> 1)" for a
  proof -
    note q = qris_valid_amount [OF assms a, of st]
    from s show ?thesis
    proof
      assume "find_store sid st = None"
      with q show ?thesis by simp
    next
      assume "\<exists>s. find_store sid st = Some s \<and> enabled s \<noteq> 1"
      then obtain s where "find_store sid st = Some s" "enabled s \<noteq> 1" by blast
      with q show ?thesis by simp
    qed
  qed
  have ok: "qris env req st =
               (json (JsonCreated (makeTransactionId env)),
                st\<lparr>transactions := transactions st @
                   [\<lparr>row_id = next_row_id (transactions st),
                     transaction_id = makeTransactionId env, tx_store_id = sid,
                     amount = \<lfloor>a\<rfloor>, played = 0\<rparr>]\<rparr>)
             \<and> 1 \<le> \<lfloor>a\<rfloor>"
    if a: "b_amount b = Finite a" and s: "\<exists>s. find_store sid st = Some s \<and> enabled s = 1"
      and one: "1 \<le> a" for a
  proof -
    from one have pos: "0 < a" by simp
    from one have fl: "1 \<le> \<lfloor>a\<rfloor>" by (simp add: le_floor_iff)
    from s obtain s where "find_store sid st = Some s" "enabled s = 1" by blast
    with qris_valid_amount [OF assms a pos, of st] fl show ?thesis
      by (simp add: insert_transaction_def)
  qed
  from bad closed ok next_row_id_above show ?thesis by blast
qed

subsection \<open>Store upsert\<close>

lemma upsert_store_rows:
  "(\<exists>s \<in> set (upsert_store sid nm tok ss). store_id s = sid)
   \<and> (\<forall>s \<in> set (upsert_store sid nm tok ss). store_id s = sid \<longrightarrow>
         enabled s = 1 \<and> name s = nm \<and> device_token s = tok)
   \<and> filter (\<lambda>s. store_id s \<noteq> sid) (upsert_store sid nm tok ss)
       = filter (\<lambda>s. store_id s \<noteq> sid) ss"
proof (cases "list_ex (\<lambda>s. store_id s = sid) ss")
  case True
  let ?f = "\<lambda>s. if store_id s = sid then s\<lparr>name := nm, device_token := tok, enabled := 1\<rparr> else s"
  have u: "upsert_store sid nm tok ss = map ?f ss" using True by (simp add: upsert_store_def)
  have k: "store_id (?f s) = store_id s" for s by simp
  from True obtain s0 where s0: "s0 \<in> set ss" "store_id s0 = sid" by (auto simp: list_ex_iff)
  have "?f s0 \<in> ?f ` set ss" using s0(1) by (rule imageI)
  then have "?f s0 \<in> set (map ?f ss)" by (simp only: set_map)
  moreover have "store_id (?f s0) = sid" using s0(2) k by simp
  ultimately have a: "\<exists>s \<in> set (upsert_store sid nm tok ss). store_id s = sid"
    unfolding u by blast
  have b: "\<forall>s \<in> set (upsert_store sid nm tok ss). store_id s = sid \<longrightarrow>
         enabled s = 1 \<and> name s = nm \<and> device_token s = tok"
  proof (intro ballI impI)
    fix s assume "s \<in> set (upsert_store sid nm tok ss)" and i: "store_id s = sid"
    then obtain s1 where s1: "s = ?f s1" unfolding u by (auto simp only: set_map)
    with i k [of s1] have "store_id s1 = sid" by simp
    with s1 have "s = s1\<lparr>name := nm, device_token := tok, enabled := 1\<rparr>" by simp
    then show "enabled s = 1 \<and> name s = nm \<and> device_token s = tok" by simp
  qed
  have "filter (\<lambda>s. store_id s \<noteq> sid) (map ?f xs) = filter (\<lambda>s. store_id s \<noteq> sid) xs" for xs
    by (induction xs) simp_all
  then have c: "filter (\<lambda>s. store_id s \<noteq> sid) (upsert_store sid nm tok ss)
       = filter (\<lambda>s. store_id s \<noteq> sid) ss"
    unfolding u .
  from a b c show ?thesis by blast
next
  case False
  then show ?thesis by (auto simp: upsert_store_def list_ex_iff)
qed

text \<open>
  C10. A \<open>POST /admin/stores\<close> that passes the admin check and the validation leaves a
  row for the store with \<open>enabled = 1\<close>, the given name and the token \<open>tok\<close> it answers
  with, so a disabled store is enabled again; \<open>tok\<close> is the provided token when the body
  has a non-blank one, and the stored token when it has none and the stored one is not
  empty; the other stores and the transactions are unchanged.
\<close>

theorem upsert_reenables:
  assumes "requireAdmin req env = None" "json_body req = Some b"
    and "trim (or_empty (b_store_id b)) = sid" "trim (or_empty (b_name b)) = nm"
    and "valid_store_id sid" "nm \<noteq> []"
  shows "\<exists>tok. fst (admin_upsert_store env req st) = json (JsonStore sid nm tok)
     \<and> (\<exists>s \<in> set (stores (snd (admin_upsert_store env req st))). store_id s = sid)
     \<and> (\<forall>s \<in> set (stores (snd (admin_upsert_store env req st))). store_id s = sid \<longrightarrow>
           enabled s = 1 \<and> name s = nm \<and> device_token s = tok)
     \<and> (trim (or_empty (b_device_token b)) \<noteq> [] \<longrightarrow> tok = trim (or_empty (b_device_token b)))
     \<and> (trim (or_empty (b_device_token b)) = [] \<longrightarrow>
          (\<forall>e. find_store sid st = Some e \<and> device_token e \<noteq> [] \<longrightarrow> tok = device_token e))
     \<and> filter (\<lambda>s. store_id s \<noteq> sid) (stores (snd (admin_upsert_store env req st)))
         = filter (\<lambda>s. store_id s \<noteq> sid) (stores st)
     \<and> transactions (snd (admin_upsert_store env req st)) = transactions st"
proof -
  define tok where "tok =
     (if trim (or_empty (b_device_token b)) \<noteq> [] then trim (or_empty (b_device_token b))
      else case find_store sid st of
             Some existing \<Rightarrow>
               if device_token existing \<noteq> [] then device_token existing
               else ''sb_'' @ randHex env 16
           | None \<Rightarrow> ''sb_'' @ randHex env 16)"
  from assms(5) have ne: "sid \<noteq> []" by (simp add: valid_store_id_def)
  have r: "admin_upsert_store env req st
      = (json (JsonStore sid nm tok), st\<lparr>stores := upsert_store sid nm tok (stores st)\<rparr>)"
    using assms ne by (simp add: admin_upsert_store_def Let_def tok_def)
  have t1: "trim (or_empty (b_device_token b)) \<noteq> [] \<longrightarrow> tok = trim (or_empty (b_device_token b))"
    by (simp add: tok_def)
  have t2: "trim (or_empty (b_device_token b)) = [] \<longrightarrow>
          (\<forall>e. find_store sid st = Some e \<and> device_token e \<noteq> [] \<longrightarrow> tok = device_token e)"
    by (simp add: tok_def)
  have f: "fst (admin_upsert_store env req st) = json (JsonStore sid nm tok)"
    and s: "stores (snd (admin_upsert_store env req st)) = upsert_store sid nm tok (stores st)"
    and t: "transactions (snd (admin_upsert_store env req st)) = transactions st"
    unfolding r by simp_all
  from upsert_store_rows [of sid nm tok "stores st"] t1 t2 show ?thesis
    unfolding f s t by blast
qed

subsection \<open>Offline alerts\<close>

lemma offline_devices_cong:
  "stores st' = stores st \<Longrightarrow> device_heartbeat st' = device_heartbeat st \<Longrightarrow>
     offline_devices j now st' = offline_devices j now st"
  by (simp add: offline_devices_def)

lemma offline_devices_mem:
  "(s, t) \<in> set (offline_devices j now st) \<longleftrightarrow>
     s \<in> set (stores st) \<and> enabled s = 1
     \<and> (\<exists>d \<in> set (device_heartbeat st). join_holds j s d \<and> d ''last_seen'' = Some (STime t))
     \<and> now - 24 * 3600 < t \<and> t < now - 30 * 60"
proof
  assume "(s, t) \<in> set (offline_devices j now st)"
  then obtain s' d where s': "s' \<in> set (stores st)" and d: "d \<in> set (device_heartbeat st)"
    and m: "(s, t) \<in> set (case d ''last_seen'' of
           Some (STime t) \<Rightarrow>
             if enabled s' = 1 \<and> join_holds j s' d
                \<and> t < now - 30 * 60 \<and> t > now - 24 * 3600
             then [(s', t)] else []
         | _ \<Rightarrow> [])"
    unfolding offline_devices_def by auto
  from m have "\<exists>t'. d ''last_seen'' = Some (STime t')"
    by (cases "d ''last_seen''") (simp_all split: sqlval.splits)
  then obtain t' where ls: "d ''last_seen'' = Some (STime t')" by blast
  with m have "s = s' \<and> t = t' \<and> enabled s' = 1 \<and> join_holds j s' d
      \<and> t' < now - 30 * 60 \<and> t' > now - 24 * 3600"
    by (auto split: if_splits)
  with s' d ls show "s \<in> set (stores st) \<and> enabled s = 1
     \<and> (\<exists>d \<in> set (device_heartbeat st). join_holds j s d \<and> d ''last_seen'' = Some (STime t))
     \<and> now - 24 * 3600 < t \<and> t < now - 30 * 60" by blast
next
  assume a: "s \<in> set (stores st) \<and> enabled s = 1
     \<and> (\<exists>d \<in> set (device_heartbeat st). join_holds j s d \<and> d ''last_seen'' = Some (STime t))
     \<and> now - 24 * 3600 < t \<and> t < now - 30 * 60"
  then obtain d where d: "d \<in> set (device_heartbeat st)" "join_holds j s d"
    "d ''last_seen'' = Some (STime t)" by blast
  with a have "(s, t) \<in> set (case d ''last_seen'' of
           Some (STime t) \<Rightarrow>
             if enabled s = 1 \<and> join_holds j s d
                \<and> t < now - 30 * 60 \<and> t > now - 24 * 3600
             then [(s, t)] else []
         | _ \<Rightarrow> [])" by simp
  with a d(1) show "(s, t) \<in> set (offline_devices j now st)"
    unfolding offline_devices_def by (simp del: One_nat_def) blast
qed

text \<open>
  C6. When the adapter resolves a join and the table has a \<open>last_seen\<close> column, a run
  alerts once for every row of the join between an enabled store and a heartbeat whose
  \<open>last_seen\<close> is more than 30 minutes and less than 24 hours before the instant of the
  query, with the store's name and the whole minutes between \<open>Date.now()\<close> and
  \<open>last_seen\<close>; a heartbeat that is 25 hours old is never among them.
\<close>

theorem offline_window:
  assumes "getHeartbeatJoinExpr (fst (getHeartbeatCols env st)) = Some j"
    and "''last_seen'' \<in> set (hb_columns st)"
  shows "fst (scheduled env st) =
       map (\<lambda>(s, t). (name s, (int (date_now env) - t * 1000) div 60000))
         (offline_devices j (sql_now env) st)
     \<and> set (offline_devices j (sql_now env) st) =
         {(s, t). s \<in> set (stores st) \<and> enabled s = 1
            \<and> (\<exists>d \<in> set (device_heartbeat st).
                  join_holds j s d \<and> d ''last_seen'' = Some (STime t))
            \<and> sql_now env - 24 * 3600 < t \<and> t < sql_now env - 30 * 60}
     \<and> (\<forall>s. (s, sql_now env - 25 * 3600) \<notin> set (offline_devices j (sql_now env) st))"
proof -
  have "offline_devices j (sql_now env) (snd (getHeartbeatCols env st))
      = offline_devices j (sql_now env) st"
    by (rule offline_devices_cong) (simp_all add: getHeartbeatCols_tables)
  with assms have a: "fst (scheduled env st) =
       map (\<lambda>(s, t). (name s, (int (date_now env) - t * 1000) div 60000))
         (offline_devices j (sql_now env) st)"
    by (simp add: scheduled_def Let_def getHeartbeatCols_tables)
  have b: "set (offline_devices j (sql_now env) st) =
         {(s, t). s \<in> set (stores st) \<and> enabled s = 1
            \<and> (\<exists>d \<in> set (device_heartbeat st).
                  join_holds j s d \<and> d ''last_seen'' = Some (STime t))
            \<and> sql_now env - 24 * 3600 < t \<and> t < sql_now env - 30 * 60}"
    using offline_devices_mem [of _ _ j "sql_now env" st] by auto
  have c: "\<forall>s. (s, sql_now env - 25 * 3600) \<notin> set (offline_devices j (sql_now env) st)"
    by (simp add: offline_devices_mem)
  from a b c show ?thesis by blast
qed

section \<open>Examples\<close>

lemmas demo_defs = demo_state_def demo_env_def demo_poll_def demo_qris_def demo_upsert_def
  demo_heartbeats_def

lemmas text_defs = trim_def is_space_def or_empty_def or_null_def header_or_def

lemma demo_admitted: "poll_admitted (demo_poll ''S1'' (Some ''tok123'')) demo_state"
  by (simp add: poll_admitted_def poll_store_def getDeviceToken_def find_store_def demo_defs text_defs)

lemma demo_store: "poll_store (demo_poll sid token) = trim sid"
  by (simp add: poll_store_def demo_defs or_empty_def)

lemma demo_queue: "queue ''S1'' demo_state = transactions demo_state"
  by (simp add: queue_def pending_def demo_defs)

theorem fifo_within_store_witness:
  "poll_admitted (demo_poll ''S1'' (Some ''tok123'')) demo_state
   \<and> distinct (map row_id (transactions demo_state))
   \<and> polls [demo_env, demo_env, demo_env, demo_env] (demo_poll ''S1'' (Some ''tok123'')) demo_state
       = [json (JsonAvailable ''A'' 15000 ''S1''), json (JsonAvailable ''B'' 2500 ''S1''),
          json (JsonAvailable ''C'' 700 ''S1''), json JsonNotAvailable]"
proof -
  have d: "distinct (map row_id (transactions demo_state))" by (simp add: demo_defs)
  have s: "poll_store (demo_poll ''S1'' (Some ''tok123'')) = ''S1''"
    by (simp add: demo_store text_defs)
  note th = fifo_within_store [OF demo_admitted d, of demo_env
      "[demo_env, demo_env, demo_env, demo_env]", THEN conjunct2, THEN conjunct2, unfolded s]
  have "map (available ''S1'')
          (take (length [demo_env, demo_env, demo_env, demo_env]) (queue ''S1'' demo_state))
        @ replicate (length [demo_env, demo_env, demo_env, demo_env] - length (queue ''S1'' demo_state))
            (json JsonNotAvailable)
       = [json (JsonAvailable ''A'' 15000 ''S1''), json (JsonAvailable ''B'' 2500 ''S1''),
          json (JsonAvailable ''C'' 700 ''S1''), json JsonNotAvailable]"
    by (simp only: demo_queue) (simp add: available_def demo_state_def)
  with th have "polls [demo_env, demo_env, demo_env, demo_env] (demo_poll ''S1'' (Some ''tok123'')) demo_state
       = [json (JsonAvailable ''A'' 15000 ''S1''), json (JsonAvailable ''B'' 2500 ''S1''),
          json (JsonAvailable ''C'' 700 ''S1''), json JsonNotAvailable]"
    by (rule trans)
  with demo_admitted d show ?thesis by (intro conjI)
qed

end
